theory Spec2Isabelle
  imports Complex_Main
begin

section \<open>The TBRS* interference model: constants and program state\<close>

text \<open>
  Shallow embedding of \<^verbatim>\<open>tbrs_compatible_with_bert_model.c\<close>.  C \<^verbatim>\<open>float\<close> values are
  modelled as real numbers (rounding is not modelled, except in the section on refreshing in
  binary32 arithmetic, where the termination of a loop depends on it), C \<^verbatim>\<open>int\<close> counters
  and array indices that never go negative as natural numbers, the remaining \<^verbatim>\<open>int\<close>s as
  integers.
  Console output (the \<^verbatim>\<open>VERBOSE\<close> trace) is a side channel and is left out.
\<close>

definition nbUnitBlocks :: nat where "nbUnitBlocks = 9"
definition sizeOfPositionBlocks :: nat where "sizeOfPositionBlocks = 6"
definition maxPosition :: nat where "maxPosition = 100"
definition maxMemoranda :: nat where "maxMemoranda = 10"
definition maxDistractors :: nat where "maxDistractors = 90"
definition maxItem :: nat where "maxItem = maxMemoranda + maxDistractors"
definition nbItemUnits :: nat where "nbItemUnits = 100"
definition distractorEncodingWeight :: real where "distractorEncodingWeight = 1 / 2"

text \<open>\<^verbatim>\<open>RAND_MAX\<close> of the C library (glibc's value); \<^verbatim>\<open>rand()\<close> returns a value in
  \<open>0..RAND_MAX\<close>.\<close>

definition RAND_MAX :: nat where "RAND_MAX = 2147483647"

text \<open>The global PARAMETERS block, together with the flags \<^verbatim>\<open>VERBOSE\<close>, \<^verbatim>\<open>PRESET\<close> and
  \<^verbatim>\<open>QUIET\<close>.  They are written by the command line analysis of \<^verbatim>\<open>main\<close> only.\<close>

record params =
  param_P :: real
  param_R :: real
  param_s :: real
  param_tauE :: real
  param_L :: real
  param_theta :: real
  param_sigma :: real
  param_D :: real
  param_Tr :: real
  param_tauOp :: real
  param_Ta :: real
  param_freeTime :: real
  param_freeTimeIncludesOpDuration :: int
  param_refreshLastStopped :: int
  param_attentionalFocusSize :: int
  nbmemo :: int
  param_memoDistr :: real
  nbop :: int
  presentationTime :: real
  param_deterministic :: int
  param_itemDistractorOverlap :: real
  param_itemDistractorNoise :: real
  param_itemItemOverlap :: real
  param_sameDist :: int
  VERBOSE :: int
  PRESET :: int
  QUIET :: int

text \<open>The initialisers of the globals (lines 54--77 and 90--92 of the source).\<close>

definition default_params :: params where
  "default_params = \<lparr>
     param_P = 3 / 10, param_R = 6, param_s = 1, param_tauE = 95 / 100, param_L = 1 / 9,
     param_theta = 5 / 100, param_sigma = 2 / 100, param_D = 1 / 2, param_Tr = 8 / 100,
     param_tauOp = 95 / 100, param_Ta = 1 / 2, param_freeTime = 1,
     param_freeTimeIncludesOpDuration = 1, param_refreshLastStopped = 0,
     param_attentionalFocusSize = 1, nbmemo = 7, param_memoDistr = 1, nbop = 4,
     presentationTime = 3 / 2, param_deterministic = 0, param_itemDistractorOverlap = 4 / 10,
     param_itemDistractorNoise = 1, param_itemItemOverlap = 4 / 10, param_sameDist = 0,
     VERBOSE = 0, PRESET = 1, QUIET = 0 \<rparr>"

text \<open>
  The mutable globals (MODEL VARIABLES, IMPLEMENTATION VARIABLES), the arrays that
  \<^verbatim>\<open>main\<close> owns and passes to every function, and the C library's random generator.

  \<^item> \<open>itemVectorsInWM\<close> and \<open>itemVectorsInLTM\<close> are \<^verbatim>\<open>float [maxItem+1][nbItemUnits+1]\<close>;
    they are kept as flat row-major memory (\<open>cell\<close> below), because
    \<^verbatim>\<open>createOverlapingRandomPattern\<close> addresses a row beyond its last element.
  \<^item> \<open>rand_seq\<close> is the sequence \<^verbatim>\<open>rand()\<close> returns, \<open>rand_calls\<close> the number of calls made.
  \<^item> \<open>stack_junk\<close> is the indeterminate value an uninitialised \<^verbatim>\<open>int\<close> local holds.
\<close>

record state =
  var_te :: real
  var_tr :: real
  var_eta :: real
  var_tauR :: real
  var_Rop :: real
  var_rop :: real
  var_ta :: real
  logTauE :: real
  globalTime :: real
  nbPositionUnits :: nat
  lastItem :: nat
  distractorNumber :: nat
  embeddingsList :: "nat \<Rightarrow> nat \<Rightarrow> real"
  positionVectors :: "nat \<Rightarrow> nat \<Rightarrow> int"
  itemVectorsInWM :: "nat \<Rightarrow> real"
  itemVectorsInLTM :: "nat \<Rightarrow> real"
  itemPositionMatrix :: "nat \<Rightarrow> nat \<Rightarrow> real"
  rand_seq :: "nat \<Rightarrow> nat"
  rand_calls :: nat
  stack_junk :: nat

text \<open>Address of element \<open>[r][j]\<close> of a \<^verbatim>\<open>float [maxItem+1][nbItemUnits+1]\<close> array, and the
  row \<open>r\<close> seen through a pointer to its element 0 (what \<^verbatim>\<open>itemVectorsInWM[r]\<close> passes).\<close>

definition cell :: "nat \<Rightarrow> nat \<Rightarrow> nat" where
  "cell r j = r * (nbItemUnits + 1) + j"

definition row :: "(nat \<Rightarrow> real) \<Rightarrow> nat \<Rightarrow> nat \<Rightarrow> real" where
  "row m r = (\<lambda>j. m (cell r j))"

section \<open>Library and helper functions\<close>

text \<open>Conversion of a \<^verbatim>\<open>float\<close> to \<^verbatim>\<open>int\<close> (implicit at a call of an \<^verbatim>\<open>int\<close> parameter, or a
  cast): the value is truncated toward zero.\<close>

definition c_trunc :: "real \<Rightarrow> int" where
  "c_trunc x = (if 0 \<le> x then \<lfloor>x\<rfloor> else \<lceil>x\<rceil>)"

text \<open>\<^verbatim>\<open>int min(int val1,int val2)\<close> and \<^verbatim>\<open>int max(int val1,int val2)\<close>.\<close>

definition min_c :: "int \<Rightarrow> int \<Rightarrow> int" where
  "min_c val1 val2 = (if val1 < val2 then val1 else val2)"

definition max_c :: "int \<Rightarrow> int \<Rightarrow> int" where
  "max_c val1 val2 = (if val1 > val2 then val1 else val2)"

text \<open>\<^verbatim>\<open>rand()\<close>, and \<^verbatim>\<open>rand()/((double)RAND_MAX + 1)\<close>.\<close>

definition rand :: "state \<Rightarrow> nat \<times> state" where
  "rand s = (rand_seq s (rand_calls s), s\<lparr>rand_calls := rand_calls s + 1\<rparr>)"

definition uniform01 :: "nat \<Rightarrow> real" where
  "uniform01 r = real r / (real RAND_MAX + 1)"

text \<open>\<^verbatim>\<open>randomNormal\<close> (Box-Muller), with the source's constant for pi.  When the first draw
  is 0 the C expression \<^verbatim>\<open>log(u)\<close> is infinite, while \<open>ln 0 = 0\<close> in HOL: statements that
  depend on a drawn normal value assume draws of at least 1.\<close>

definition randomNormal :: "real \<Rightarrow> real \<Rightarrow> state \<Rightarrow> real \<times> state" where
  "randomNormal mean std s =
     (let (r1, s1) = rand s;
          u = uniform01 r1;
          (r2, s2) = rand s1;
          v = uniform01 r2
      in (mean + std * sqrt (- 2 * ln u) * cos (2 * (31415926535 / 10000000000) * v), s2))"

text \<open>\<^verbatim>\<open>rmse\<close>: root mean square error of two vectors over the indices \<open>1..sz\<close> (\<open>sz\<close> is the parameter \<^verbatim>\<open>size\<close>).\<close>

definition rmse :: "(nat \<Rightarrow> real) \<Rightarrow> (nat \<Rightarrow> real) \<Rightarrow> nat \<Rightarrow> real" where
  "rmse v1 v2 sz =
     sqrt (fold (\<lambda>i acc. acc + (v1 i - v2 i) * (v1 i - v2 i)) [1..<sz + 1] 0 / real sz)"

text \<open>\<^verbatim>\<open>decay\<close>: every non-zero association of every item \<open>1..maxItem\<close> but the excluded
  one is multiplied by the factor.\<close>

definition decay_row :: "nat \<Rightarrow> real \<Rightarrow> nat \<Rightarrow> (nat \<Rightarrow> nat \<Rightarrow> real) \<Rightarrow> (nat \<Rightarrow> nat \<Rightarrow> real)" where
  "decay_row n factor i m =
     fold (\<lambda>j m. if m i j \<noteq> 0 then m(i := (m i)(j := m i j * factor)) else m) [1..<n + 1] m"

definition decay :: "nat \<Rightarrow> (nat \<Rightarrow> nat \<Rightarrow> real) \<Rightarrow> real \<Rightarrow> int \<Rightarrow> (nat \<Rightarrow> nat \<Rightarrow> real)" where
  "decay n matrix factor excludedItem =
     fold (\<lambda>i m. if excludedItem = - 1 \<or> int i \<noteq> excludedItem then decay_row n factor i m else m)
       [1..<maxItem + 1] matrix"

text \<open>\<^verbatim>\<open>interfere\<close>: the old vector lives in memory \<open>mem\<close> at address \<open>base\<close> and is updated
  in place; the new vector is read only.\<close>

definition interfere :: "(nat \<Rightarrow> real) \<Rightarrow> nat \<Rightarrow> (nat \<Rightarrow> real) \<Rightarrow> real \<Rightarrow> (nat \<Rightarrow> real)" where
  "interfere mem base newItemVector p =
     fold (\<lambda>j m.
         if m (base + j) \<noteq> newItemVector j
            \<and> (c_trunc (m (base + j)) \<noteq> - 1 \<and> c_trunc (newItemVector j) \<noteq> - 1)
         then m(base + j := m (base + j) * (1 - p) + newItemVector j * p)
         else m)
       [1..<nbItemUnits + 1] mem"

section \<open>Retrieval\<close>

text \<open>Activation an item receives from the position units (the inner loop of
  \<^verbatim>\<open>retrieve\<close>).\<close>

definition position_activation :: "state \<Rightarrow> nat \<Rightarrow> nat \<Rightarrow> real" where
  "position_activation s pos item =
     fold (\<lambda>i somme.
         if positionVectors s pos i \<noteq> 0
         then somme + real_of_int (positionVectors s pos i) * itemPositionMatrix s item i
         else somme)
       [1..<nbPositionUnits s + 1] 0"

text \<open>The factor of the noise term, \<^verbatim>\<open>max(param_sigma,.0001)\<close>: \<^verbatim>\<open>max\<close> takes and returns
  \<^verbatim>\<open>int\<close>, so both arguments are converted.\<close>

definition noise_factor :: "params \<Rightarrow> real" where
  "noise_factor P = real_of_int (max_c (c_trunc (param_sigma P)) (c_trunc (1 / 10000)))"

text \<open>One pass of the activation loop of \<^verbatim>\<open>retrieve\<close> for \<open>item\<close>; the accumulator is
  \<open>(amax, best, state)\<close> for \<^verbatim>\<open>*activationMax\<close> and \<^verbatim>\<open>*bestWMItem\<close>.\<close>

definition item_activation :: "params \<Rightarrow> nat \<Rightarrow> nat \<Rightarrow> state \<Rightarrow> real \<times> state" where
  "item_activation P pos item s =
     (let (noise, s') = randomNormal 0 1 s
      in (position_activation s pos item + noise * noise_factor P, s'))"

definition activation_step :: "params \<Rightarrow> nat \<Rightarrow> nat \<Rightarrow> real \<times> nat \<times> state \<Rightarrow> real \<times> nat \<times> state" where
  "activation_step P pos item acc =
     (case acc of (amax, best, s) \<Rightarrow>
        (let (somme, s') = item_activation P pos item s
         in if somme > amax then (somme, item, s') else (amax, best, s')))"

text \<open>One pass of the comparison loop with the LTM representations; the accumulator is
  \<open>(minRmse, retrievedItem)\<close>.\<close>

definition closest_step :: "state \<Rightarrow> nat \<Rightarrow> nat \<Rightarrow> real \<times> nat \<Rightarrow> real \<times> nat" where
  "closest_step s best item acc =
     (case acc of (minRmse, retrieved) \<Rightarrow>
        (let aRmse = rmse (row (itemVectorsInWM s) best) (row (itemVectorsInLTM s) item) nbItemUnits
         in if aRmse < minRmse then (aRmse, item) else (minRmse, retrieved)))"

record retrieval =
  retrievedItem :: nat
  activationMax :: real
  retrievalDuration :: real
  bestWMItem :: nat

text \<open>\<^verbatim>\<open>retrieve\<close>: \<open>retrieval_time\<close> is its first block (the duration of a retrieval
  during recall, \<open>status = 0\<close>; a retrieval during refreshing reuses \<^verbatim>\<open>var_tr\<close>), then come the
  activation loop, the threshold test and the comparison loop.  \<open>best0\<close> is the content of the caller's \<^verbatim>\<open>bestWMItem\<close> variable before
  the call (the function writes it only when an activation exceeds \<open>-99999\<close>); the local
  \<^verbatim>\<open>retrievedItem\<close> is uninitialised until a branch assigns it.\<close>

definition retrieval_time :: "params \<Rightarrow> int \<Rightarrow> state \<Rightarrow> state" where
  "retrieval_time P status s0 =
     (if status = 0 then
        (let (r, s) = randomNormal (param_R P) (param_s P) s0;
             var_r = (if r < 1 / 10 then 1 / 10 else r);
             tr = logTauE s / var_r
         in s\<lparr>var_tr := (if tr > presentationTime P then presentationTime P else tr)\<rparr>)
      else s0)"

definition retrieve :: "params \<Rightarrow> nat \<Rightarrow> int \<Rightarrow> nat \<Rightarrow> state \<Rightarrow> retrieval \<times> state" where
  "retrieve P pos status best0 s0 =
     (let s1 = retrieval_time P status s0;
          live = maxMemoranda + distractorNumber s1;
          (amax, best, s2) = fold (activation_step P pos) [1..<live + 1] (- 99999, best0, s1);
          item = (if amax < param_theta P then 0
                  else snd (fold (closest_step s2 best) [1..<live + 1] (99999, stack_junk s2)))
      in (\<lparr>retrievedItem = item, activationMax = amax, retrievalDuration = var_tr s1,
            bestWMItem = best\<rparr>, s2))"

section \<open>Pattern generation\<close>

text \<open>
  The pattern functions receive a pointer \<^verbatim>\<open>float pattern[]\<close> into a row of an item array.
  The pattern is modelled as the memory seen from that pointer (index \<open>i\<close> is element
  \<^verbatim>\<open>pattern[i]\<close>, whether or not it still belongs to the row), paired with the list of the
  indices of \<^verbatim>\<open>pattern\<close> that have been read or written, most recent first.
\<close>

type_synonym pattern_mem = "(nat \<Rightarrow> real) \<times> nat list"

definition set_pattern :: "nat \<Rightarrow> real \<Rightarrow> pattern_mem \<Rightarrow> pattern_mem" where
  "set_pattern i v pt = (case pt of (pattern, touched) \<Rightarrow> (pattern(i := v), i # touched))"

text \<open>\<^verbatim>\<open>tmp=pattern[alea]; pattern[alea]=pattern[c]; pattern[c]=tmp;\<close>\<close>

definition swap_pattern :: "nat \<Rightarrow> nat \<Rightarrow> pattern_mem \<Rightarrow> pattern_mem" where
  "swap_pattern alea c pt =
     (case pt of (pattern, touched) \<Rightarrow>
        ((pattern(alea := pattern c))(c := pattern alea), c # alea # c # alea # touched))"

text \<open>\<^verbatim>\<open>createRandomPattern\<close>: uniform values at the indices \<open>mn..mx\<close> (the parameters
  \<^verbatim>\<open>min\<close> and \<^verbatim>\<open>max\<close>).\<close>

definition createRandomPattern :: "nat \<Rightarrow> nat \<Rightarrow> pattern_mem \<times> state \<Rightarrow> pattern_mem \<times> state" where
  "createRandomPattern mn mx =
     fold (\<lambda>i acc. case acc of (pt, s) \<Rightarrow>
         (let (r, s') = rand s in (set_pattern i (uniform01 r) pt, s')))
       [mn..<mx + 1]"

text \<open>\<^verbatim>\<open>createSimilarRandomPattern\<close>: at the indices \<open>mn..mx\<close>, a uniform value where the
  reference is \<open>-1\<close>, the reference plus normal noise clamped to \<open>[0,1]\<close> elsewhere.\<close>

definition similar_value :: "real \<Rightarrow> real \<Rightarrow> state \<Rightarrow> real \<times> state" where
  "similar_value ref std s =
     (if ref = - 1 then (let (r, s') = rand s in (uniform01 r, s'))
      else (let (val, s') = randomNormal ref std s
            in (if val < 0 then 0 else if val > 1 then 1 else val, s')))"

definition createSimilarRandomPattern ::
  "(nat \<Rightarrow> real) \<Rightarrow> real \<Rightarrow> nat \<Rightarrow> nat \<Rightarrow> pattern_mem \<times> state \<Rightarrow> pattern_mem \<times> state" where
  "createSimilarRandomPattern refPattern std mn mx =
     fold (\<lambda>i acc. case acc of (pt, s) \<Rightarrow>
         (let (val, s') = similar_value (refPattern i) std s in (set_pattern i val pt, s')))
       [mn..<mx + 1]"

text \<open>
  \<^verbatim>\<open>createOverlapingRandomPattern\<close>, loop by loop:
  \<^item> \<^verbatim>\<open>i=1; while (i<=patternSize) { pattern[i]=-1; i++; }\<close> (the second conjunct of the
    condition is commented out in the source), after which \<open>i = patternSize + 1\<close>;
  \<^item> \<^verbatim>\<open>firstUsedUnit=i\<close>;
  \<^item> \<^verbatim>\<open>for(c=1;c<=(1-p)*patternSize;c++) pattern[i++]=-1\<close>, which runs for the integers
    \<open>c\<close> from 1 to the integer part of \<open>(1-p)*patternSize\<close>;
  \<^item> \<^verbatim>\<open>createSimilarRandomPattern(pattern,refPattern,param_itemDistractorNoise,i,i+patternSize/4)\<close>;
  \<^item> the shuffle, for \<open>c\<close> from \<open>firstUsedUnit+patternSize\<close> down to \<open>firstUsedUnit+1\<close>;
  \<^item> \<^verbatim>\<open>for(c=i+patternSize+1;c<=patternSize;c++) pattern[c]=-1\<close>.
\<close>

definition shuffle_step :: "nat \<Rightarrow> nat \<Rightarrow> nat \<Rightarrow> pattern_mem \<times> state \<Rightarrow> pattern_mem \<times> state" where
  "shuffle_step patternSize firstUsedUnit c acc =
     (case acc of (pt, s) \<Rightarrow>
        (let (r, s') = rand s;
             alea = r mod patternSize + firstUsedUnit
         in (swap_pattern alea c pt, s')))"

definition createOverlapingRandomPattern ::
  "params \<Rightarrow> (nat \<Rightarrow> real) \<Rightarrow> nat \<Rightarrow> real \<Rightarrow> pattern_mem \<times> state \<Rightarrow> pattern_mem \<times> state" where
  "createOverlapingRandomPattern P refPattern patternSize p acc =
     (case acc of (pt0, s0) \<Rightarrow>
        (let pt1 = fold (\<lambda>i. set_pattern i (- 1)) [1..<patternSize + 1] pt0;
             i1 = patternSize + 1;
             firstUsedUnit = i1;
             (i2, pt2) = fold (\<lambda>c (i, pt). (i + 1, set_pattern i (- 1) pt))
                           [1..<nat \<lfloor>(1 - p) * real patternSize\<rfloor> + 1] (i1, pt1);
             (pt3, s3) = createSimilarRandomPattern refPattern (param_itemDistractorNoise P)
                           i2 (i2 + patternSize div 4) (pt2, s0);
             (pt4, s4) = fold (shuffle_step patternSize firstUsedUnit)
                           (rev [firstUsedUnit + 1..<firstUsedUnit + patternSize + 1]) (pt3, s3);
             pt5 = fold (\<lambda>c. set_pattern c (- 1)) [i2 + patternSize + 1..<patternSize + 1] pt4
         in (pt5, s4)))"

section \<open>Recall\<close>

text \<open>Response suppression (the loop at lines 713--715), for the item \<open>bestLTMItem\<close> that
  \<^verbatim>\<open>retrieve\<close> returned.\<close>

definition suppress :: "params \<Rightarrow> state \<Rightarrow> nat \<Rightarrow> real \<Rightarrow> (nat \<Rightarrow> nat \<Rightarrow> real)" where
  "suppress P s bestLTMItem amax =
     fold (\<lambda>j m.
         if itemVectorsInWM s (cell bestLTMItem j) \<noteq> 0
         then m(bestLTMItem := (m bestLTMItem)(j := m bestLTMItem j - param_L P * amax))
         else m)
       [1..<nbPositionUnits s + 1] (itemPositionMatrix s)"

text \<open>The symbol \<^verbatim>\<open>codeItem\<close> of a recalled item.\<close>

definition codeItem_of :: "nat \<Rightarrow> char" where
  "codeItem_of bestLTMItem =
     (if bestLTMItem \<ge> 1 \<and> bestLTMItem \<le> 26 then char_of (bestLTMItem + 65 - 1) else CHR ''*'')"

text \<open>One pass of the loop of \<^verbatim>\<open>recall\<close>; the accumulator holds the variable
  \<^verbatim>\<open>bestWMItem\<close>, the buffer \<^verbatim>\<open>recalled\<close> and the state.\<close>

definition recall_position ::
  "params \<Rightarrow> nat \<Rightarrow> nat \<times> char list \<times> state \<Rightarrow> nat \<times> char list \<times> state" where
  "recall_position P position acc =
     (case acc of (best, recalled, s) \<Rightarrow>
        (let (r, s1) = retrieve P position 0 best s;
             dur = (if retrievalDuration r > 5 then 5 else retrievalDuration r);
             s2 = s1\<lparr>itemPositionMatrix :=
                     decay (nbPositionUnits s1) (itemPositionMatrix s1) (exp (- param_D P * dur)) (- 1)\<rparr>;
             (codeItem, s3) =
               (if activationMax r > param_theta P
                then (codeItem_of (retrievedItem r),
                      s2\<lparr>itemPositionMatrix := suppress P s2 (retrievedItem r) (activationMax r)\<rparr>)
                else (CHR ''.'', s2))
         in (bestWMItem r, recalled[position - 1 := codeItem],
             s3\<lparr>globalTime := globalTime s3 + dur\<rparr>)))"

text \<open>\<^verbatim>\<open>recall\<close>; \<open>recalled0\<close> is the caller's buffer of \<open>maxPosition + 1\<close> characters.\<close>

definition recall :: "params \<Rightarrow> nat \<Rightarrow> char list \<Rightarrow> state \<Rightarrow> char list \<times> state" where
  "recall P lastPosition recalled0 s =
     (case fold (recall_position P) [1..<lastPosition + 1] (stack_junk s, recalled0, s) of
        (best, recalled, s') \<Rightarrow> (recalled[lastPosition := CHR 0x00], s'))"

section \<open>Position and item representations\<close>

text \<open>Block \<open>i\<close> (from 0) of a position vector holds the units
  \<open>i*sizeOfPositionBlocks + 1 .. (i+1)*sizeOfPositionBlocks\<close>.  \<open>clear_block\<close> and
  \<open>copy_block\<close> are the two inner loops over \<open>j\<close> of \<^verbatim>\<open>generatePositionRepresentations\<close>.\<close>

definition clear_block :: "nat \<Rightarrow> nat \<Rightarrow> (nat \<Rightarrow> nat \<Rightarrow> int) \<Rightarrow> (nat \<Rightarrow> nat \<Rightarrow> int)" where
  "clear_block p i =
     fold (\<lambda>j pv. pv(p := (pv p)(j := 0)))
       [i * sizeOfPositionBlocks + 1..<(i + 1) * sizeOfPositionBlocks + 1]"

definition copy_block :: "nat \<Rightarrow> nat \<Rightarrow> (nat \<Rightarrow> nat \<Rightarrow> int) \<Rightarrow> (nat \<Rightarrow> nat \<Rightarrow> int)" where
  "copy_block p i =
     fold (\<lambda>j pv. pv(p := (pv p)(j := pv (p - 1) j)))
       [i * sizeOfPositionBlocks + 1..<(i + 1) * sizeOfPositionBlocks + 1]"

text \<open>Block \<open>i\<close> of position 1: one random unit is set (the row was zeroed before).\<close>

definition first_block :: "nat \<Rightarrow> (nat \<Rightarrow> nat \<Rightarrow> int) \<times> state \<Rightarrow> (nat \<Rightarrow> nat \<Rightarrow> int) \<times> state" where
  "first_block i acc =
     (case acc of (pv, s) \<Rightarrow>
        (let (r, s') = rand s;
             randomPosition = 1 + r mod sizeOfPositionBlocks
         in (pv(1 := (pv 1)(i * sizeOfPositionBlocks + randomPosition := 1)), s')))"

text \<open>Block \<open>i\<close> of a position \<open>p > 1\<close>: replaced when \<^verbatim>\<open>rand()%100>param_P*100\<close>, copied from
  position \<open>p - 1\<close> otherwise.\<close>

definition position_block ::
  "params \<Rightarrow> nat \<Rightarrow> nat \<Rightarrow> (nat \<Rightarrow> nat \<Rightarrow> int) \<times> state \<Rightarrow> (nat \<Rightarrow> nat \<Rightarrow> int) \<times> state" where
  "position_block P p i acc =
     (case acc of (pv, s) \<Rightarrow>
        (let (r, s1) = rand s
         in if real (r mod 100) > param_P P * 100
            then (let pv1 = clear_block p i pv;
                      (r2, s2) = rand s1;
                      randomPosition = 1 + r2 mod sizeOfPositionBlocks
                  in (pv1(p := (pv1 p)(i * sizeOfPositionBlocks + randomPosition := 1)), s2))
            else (copy_block p i pv, s1)))"

definition generatePositionRepresentations :: "params \<Rightarrow> state \<Rightarrow> state" where
  "generatePositionRepresentations P s =
     (let pv0 = fold (\<lambda>i pv. pv(1 := (pv 1)(i := 0))) [1..<nbPositionUnits s + 1] (positionVectors s);
          acc1 = fold first_block [0..<nbUnitBlocks] (pv0, s);
          (pv, s') = fold (\<lambda>p. fold (position_block P p) [0..<nbUnitBlocks]) [2..<maxPosition + 1] acc1
      in s'\<lparr>positionVectors := pv\<rparr>)"

text \<open>A block with exactly one unit set to 1 and the others 0.\<close>

definition one_hot_block :: "(nat \<Rightarrow> nat \<Rightarrow> int) \<Rightarrow> nat \<Rightarrow> nat \<Rightarrow> bool" where
  "one_hot_block pv p i =
     (\<exists>k\<in>{1..sizeOfPositionBlocks}. \<forall>j\<in>{1..sizeOfPositionBlocks}.
        pv p (i * sizeOfPositionBlocks + j) = (if j = k then 1 else 0))"

text \<open>\<^verbatim>\<open>generateItemRepresentations\<close>.  A memorandum is first filled with \<open>-1\<close>, then either
  drawn at random (\<^verbatim>\<open>!PRESET\<close>) or copied from \<^verbatim>\<open>embeddingsList\<close>; the distractor rows are
  filled with \<open>-1\<close>.  The array is given by its flat memory, and the function returns it
  with the state (for the random generator).\<close>

definition fill_row :: "nat \<Rightarrow> real \<Rightarrow> (nat \<Rightarrow> real) \<Rightarrow> (nat \<Rightarrow> real)" where
  "fill_row i v = fold (\<lambda>j m. m(cell i j := v)) [1..<nbItemUnits + 1]"

definition memorandum_row :: "params \<Rightarrow> nat \<Rightarrow> (nat \<Rightarrow> real) \<times> state \<Rightarrow> (nat \<Rightarrow> real) \<times> state" where
  "memorandum_row P i acc =
     (case acc of (m, s) \<Rightarrow>
        (let m1 = fill_row i (- 1) m
         in if PRESET P = 0
            then (case createRandomPattern 1 nbItemUnits ((\<lambda>j. m1 (cell i 0 + j), []), s) of
                    ((pattern, touched), s') \<Rightarrow>
                      (\<lambda>a. if cell i 0 \<le> a then pattern (a - cell i 0) else m1 a, s'))
            else (fold (\<lambda>jj m. m(cell i jj := embeddingsList s (i - 1) (jj - 1))) [1..<nbItemUnits + 1] m1,
                  s)))"

definition generateItemRepresentations :: "params \<Rightarrow> (nat \<Rightarrow> real) \<times> state \<Rightarrow> (nat \<Rightarrow> real) \<times> state" where
  "generateItemRepresentations P acc =
     (case fold (memorandum_row P) [1..<maxMemoranda + 1] acc of
        (m, s) \<Rightarrow> (fold (\<lambda>i. fill_row i (- 1)) [maxMemoranda + 1..<maxItem + 1] m, s))"

section \<open>Encoding\<close>

text \<open>The first block of \<^verbatim>\<open>encode\<close>: the duration and the strength \<^verbatim>\<open>var_eta\<close>, for the rate
  \<open>r\<close> already drawn and floored (\<^verbatim>\<open>var_r\<close>, a local of \<^verbatim>\<open>encode\<close>).  At the initial
  encoding of a memorandum the LTM vector is copied into WM.\<close>

definition encode_duration ::
  "params \<Rightarrow> int \<Rightarrow> nat \<Rightarrow> real \<Rightarrow> int \<Rightarrow> real \<Rightarrow> int \<Rightarrow> real \<Rightarrow> state \<Rightarrow> real \<times> state" where
  "encode_duration P initialEncoding currentItem timeLeft strengthDivisor duration distractor r s =
     (if initialEncoding \<noteq> 0 then
        (if distractor \<noteq> 0 then (0, s)
         else
           (let s1 = s\<lparr>itemVectorsInWM :=
                        fold (\<lambda>j m. m(cell currentItem j := itemVectorsInLTM s (cell currentItem j)))
                          [1..<nbItemUnits + 1] (itemVectorsInWM s)\<rparr>;
                te = logTauE s1 / r;
                s2 = s1\<lparr>var_te := (if te > presentationTime P then presentationTime P else te)\<rparr>;
                encodingDuration = var_te s2
            in (encodingDuration, s2\<lparr>var_eta := 1 - exp (- r * encodingDuration)\<rparr>)))
      else
        (let (encodingDuration, s1) =
               (if duration = - 1
                then (let tr = - ln (1 - var_tauR s) / r;
                          s1 = s\<lparr>var_tr := (if tr > timeLeft then timeLeft else tr)\<rparr>
                      in (var_tr s1, s1))
                else (duration, s));
             s2 = s1\<lparr>var_eta := 1 - exp (- r * encodingDuration)\<rparr>
         in (encodingDuration, s2\<lparr>var_eta := var_eta s2 / real_of_int strengthDivisor\<rparr>)))"

text \<open>The block \<^verbatim>\<open>if (distractor) { ... }\<close> of \<^verbatim>\<open>encode\<close>: the item at the position is
  retrieved, the distractor's LTM pattern is created in row \<open>maxMemoranda + distractorNumber\<close>
  (through a pointer to that row, so that what the pattern function writes beyond the row lands
  in the following rows), copied into WM, and interferes with the retrieved item.\<close>

definition new_distractor_pattern :: "params \<Rightarrow> nat \<Rightarrow> state \<Rightarrow> state" where
  "new_distractor_pattern P retrieved s =
     (let base = cell (maxMemoranda + distractorNumber s) 0
      in case createOverlapingRandomPattern P (row (itemVectorsInWM s) retrieved) nbItemUnits
                (param_itemDistractorOverlap P) ((\<lambda>i. itemVectorsInLTM s (base + i), []), s) of
           ((pattern, touched), s') \<Rightarrow>
             s'\<lparr>itemVectorsInLTM :=
                  (\<lambda>a. if base \<le> a then pattern (a - base) else itemVectorsInLTM s a)\<rparr>)"

definition encode_distractor :: "params \<Rightarrow> nat \<Rightarrow> state \<Rightarrow> state" where
  "encode_distractor P position s =
     (let (r, s1) = retrieve P position 1 (stack_junk s) s;
          s2 = (if param_sameDist P = 1
                then (if distractorNumber s1 = 0
                      then new_distractor_pattern P (retrievedItem r) (s1\<lparr>distractorNumber := 1\<rparr>)
                      else s1)
                else new_distractor_pattern P (retrievedItem r) s1);
          d = maxMemoranda + distractorNumber s2;
          s3 = s2\<lparr>itemVectorsInWM :=
                   fold (\<lambda>j m. m(cell d j := itemVectorsInLTM s2 (cell d j)))
                     [1..<nbItemUnits + 1] (itemVectorsInWM s2)\<rparr>;
          s4 = s3\<lparr>itemVectorsInWM :=
                   interfere (itemVectorsInWM s3) (cell (retrievedItem r) 0)
                     (row (itemVectorsInWM s3) d) distractorEncodingWeight\<rparr>
      in s4\<lparr>var_eta := var_eta s4 * distractorEncodingWeight\<rparr>)"

text \<open>Creation or update of the association links of \<open>currentItem\<close> with the active units of
  the position.\<close>

definition strengthen :: "params \<Rightarrow> nat \<Rightarrow> nat \<Rightarrow> state \<Rightarrow> (nat \<Rightarrow> nat \<Rightarrow> real)" where
  "strengthen P currentItem position s =
     fold (\<lambda>j m.
         if positionVectors s position j \<noteq> 0
         then m(currentItem := (m currentItem)
                  (j := m currentItem j + (param_L P - m currentItem j) * var_eta s))
         else m)
       [1..<nbPositionUnits s + 1] (itemPositionMatrix s)"

text \<open>\<^verbatim>\<open>encode\<close>; it returns \<^verbatim>\<open>encodingDuration\<close>.\<close>

definition encode ::
  "params \<Rightarrow> int \<Rightarrow> nat \<Rightarrow> int \<Rightarrow> nat \<Rightarrow> real \<Rightarrow> int \<Rightarrow> real \<Rightarrow> int \<Rightarrow> state \<Rightarrow> real \<times> state" where
  "encode P initialEncoding currentItem best position timeLeft strengthDivisor duration distractor s0 =
     (let (r0, s1) = randomNormal (param_R P) (param_s P) s0;
          var_r = (if r0 < 1 / 10 then 1 / 10 else r0);
          (encodingDuration, s2) =
             encode_duration P initialEncoding currentItem timeLeft strengthDivisor duration distractor var_r s1;
          s3 = s2\<lparr>globalTime := globalTime s2 + encodingDuration\<rparr>;
          s4 = (if distractor = 0 \<and> duration = - 1
                then s3\<lparr>itemPositionMatrix :=
                        decay (nbPositionUnits s3) (itemPositionMatrix s3)
                          (exp (- param_D P * encodingDuration)) (int currentItem)\<rparr>
                else s3);
          s5 = (if distractor \<noteq> 0 then encode_distractor P position s4 else s4);
          s6 = s5\<lparr>itemPositionMatrix := strengthen P currentItem position s5\<rparr>;
          s7 = (if initialEncoding = 0 \<and> distractor = 0
                then s6\<lparr>itemVectorsInWM :=
                        interfere (itemVectorsInWM s6) (cell (nat best) 0)
                          (row (itemVectorsInLTM s6) currentItem) (1 / 2)\<rparr>
                else s6)
      in (encodingDuration, s7))"

section \<open>Refreshing and processing\<close>

text \<open>One pass of the inner loop of \<^verbatim>\<open>refresh\<close> (\<^verbatim>\<open>while (afsi > 0)\<close>); the accumulator holds
  \<^verbatim>\<open>cpi\<close>, \<^verbatim>\<open>reencodingDuration\<close>, the variable \<^verbatim>\<open>bestWMItem\<close> and the state.\<close>

definition refresh_item ::
  "params \<Rightarrow> nat \<Rightarrow> real \<Rightarrow> nat \<times> real \<times> nat \<times> state \<Rightarrow> nat \<times> real \<times> nat \<times> state" where
  "refresh_item P lastPosition timeAvailable acc =
     (case acc of (cpi, reencodingDuration, best, s) \<Rightarrow>
        (let (r, s1) = retrieve P cpi 1 best s;
             (d, s2) = encode P 0 (retrievedItem r) (int (bestWMItem r)) cpi timeAvailable
                         (min_c (param_attentionalFocusSize P) (int lastPosition)) reencodingDuration 0 s1;
             cpi' = (if cpi + 1 > lastPosition then 1 else cpi + 1)
         in (cpi', d, bestWMItem r, s2)))"

primrec refresh_window ::
  "params \<Rightarrow> nat \<Rightarrow> real \<Rightarrow> nat \<Rightarrow> nat \<times> real \<times> nat \<times> state \<Rightarrow> nat \<times> real \<times> nat \<times> state" where
  "refresh_window P lastPosition timeAvailable 0 acc = acc"
| "refresh_window P lastPosition timeAvailable (Suc afsi) acc =
     refresh_window P lastPosition timeAvailable afsi (refresh_item P lastPosition timeAvailable acc)"

text \<open>The outer loop of \<^verbatim>\<open>refresh\<close> (\<^verbatim>\<open>while (timeAvailable > 0)\<close>) may run forever: the result
  is \<open>None\<close> then.  The argument holds \<^verbatim>\<open>timeAvailable\<close>, \<^verbatim>\<open>currentPosition\<close>, the variable
  \<^verbatim>\<open>bestWMItem\<close> and the state.\<close>

partial_function (option) refresh_loop ::
  "params \<Rightarrow> nat \<Rightarrow> real \<times> nat \<times> nat \<times> state \<Rightarrow> state option" where
  "refresh_loop P lastPosition v =
     (case v of (timeAvailable, currentPosition, best, s) \<Rightarrow>
        if timeAvailable > 0 then
          (case refresh_window P lastPosition timeAvailable
                  (nat (min_c (param_attentionalFocusSize P) (int lastPosition)))
                  (currentPosition, - 1, best, s) of
             (cpi, reencodingDuration, best', s') \<Rightarrow>
               refresh_loop P lastPosition
                 (if timeAvailable - reencodingDuration < 0 then 0 else timeAvailable - reencodingDuration,
                  cpi, best', s'))
        else Some s)"

definition refresh :: "params \<Rightarrow> real \<Rightarrow> nat \<Rightarrow> state \<Rightarrow> state option" where
  "refresh P timeAvailable lastPosition s = refresh_loop P lastPosition (timeAvailable, 1, stack_junk s, s)"

text \<open>\<^verbatim>\<open>processing\<close>: one distractor step; it returns \<^verbatim>\<open>var_ta\<close>.\<close>

definition processing :: "params \<Rightarrow> nat \<Rightarrow> state \<Rightarrow> real \<times> state" where
  "processing P lastPosition s0 =
     (let s1 = s0\<lparr>var_Rop := - ln (1 - param_tauOp P) / param_Ta P\<rparr>;
          (rop, s2) = randomNormal (var_Rop s1) (param_s P) s1;
          s3 = s2\<lparr>var_rop := (if rop < 1 / 10 then 1 / 10 else rop)\<rparr>;
          s4 = s3\<lparr>var_ta := - ln (1 - param_tauOp P) / var_rop s3\<rparr>;
          s5 = (if var_ta s4 > param_freeTime P \<and> param_freeTimeIncludesOpDuration P = 1
                then s4\<lparr>var_ta := param_freeTime P\<rparr> else s4);
          (encodingDuration, s6) =
             encode P 1 (maxMemoranda + distractorNumber s5) (- 1) lastPosition 9999 1 (var_ta s5) 1 s5;
          s7 = s6\<lparr>globalTime := globalTime s6 + var_ta s6\<rparr>
      in (var_ta s7,
          s7\<lparr>itemPositionMatrix :=
               decay (nbPositionUnits s7) (itemPositionMatrix s7) (exp (- param_D P * var_ta s7)) (- 1)\<rparr>))"

section \<open>The main program\<close>

text \<open>What \<^verbatim>\<open>main\<close> assigns before the simulations: the number of position units (line 831)
  and the model variables \<^verbatim>\<open>logTauE\<close> and \<^verbatim>\<open>var_tauR\<close> (lines 983--984).\<close>

definition main_model_variables :: "params \<Rightarrow> state \<Rightarrow> state" where
  "main_model_variables P s =
     s\<lparr>nbPositionUnits := nbUnitBlocks * sizeOfPositionBlocks,
       logTauE := - ln (1 - param_tauE P),
       var_tauR := 1 - exp (- param_R P * param_Tr P)\<rparr>"

text \<open>How a run ends before its results: \<^verbatim>\<open>error(s1,s2)\<close> prints both strings and exits with
  \<^verbatim>\<open>EXIT_FAILURE\<close>; \<^verbatim>\<open>main\<close> returns 1 when the embeddings file cannot be opened;
  \<^verbatim>\<open>error(syntax,"")\<close> prints the help text; an option that needs a value and is the last
  argument makes \<^verbatim>\<open>atoi\<close> or \<^verbatim>\<open>atof\<close> read \<^verbatim>\<open>argv[argc]\<close>, a null pointer; the stimulus array
  read past its end.\<close>

datatype abort =
    Error_exit string string
  | Syntax_help
  | Error_opening_file
  | Null_argument string
  | Stimulus_overrun

text \<open>The options of the command line that take a value, in the order of the source's
  \<^verbatim>\<open>else if\<close> chain; \<open>None\<close> for any other string.  \<open>atoi\<close> and \<open>atof\<close> are the C library's
  conversions, \<open>n\<close> is the local \<^verbatim>\<open>nbSimulations\<close>.\<close>

definition option_value ::
  "(string \<Rightarrow> int) \<Rightarrow> (string \<Rightarrow> real) \<Rightarrow> string \<Rightarrow> string \<Rightarrow> params \<times> int \<Rightarrow> (params \<times> int) option" where
  "option_value atoi atof a v acc =
     (case acc of (P, n) \<Rightarrow>
        if a = ''-n'' then Some (P, atoi v)
        else if a = ''nbmemo'' then Some (P\<lparr>nbmemo := atoi v\<rparr>, n)
        else if a = ''memoDistr'' then Some (P\<lparr>param_memoDistr := atof v\<rparr>, n)
        else if a = ''nbop'' then Some (P\<lparr>nbop := atoi v\<rparr>, n)
        else if a = ''R'' then Some (P\<lparr>param_R := atof v\<rparr>, n)
        else if a = ''P'' then Some (P\<lparr>param_P := atof v\<rparr>, n)
        else if a = ''s'' then Some (P\<lparr>param_s := atof v\<rparr>, n)
        else if a = ''D'' then Some (P\<lparr>param_D := atof v\<rparr>, n)
        else if a = ''theta'' then Some (P\<lparr>param_theta := atof v\<rparr>, n)
        else if a = ''sigma'' then Some (P\<lparr>param_sigma := atof v\<rparr>, n)
        else if a = ''Tr'' then Some (P\<lparr>param_Tr := atof v\<rparr>, n)
        else if a = ''Ta'' then Some (P\<lparr>param_Ta := atof v\<rparr>, n)
        else if a = ''freeTime'' then Some (P\<lparr>param_freeTime := atof v\<rparr>, n)
        else if a = ''ftiod'' then Some (P\<lparr>param_freeTimeIncludesOpDuration := atoi v\<rparr>, n)
        else if a = ''determ'' then Some (P\<lparr>param_deterministic := atoi v\<rparr>, n)
        else if a = ''sameDist'' then Some (P\<lparr>param_sameDist := atoi v\<rparr>, n)
        else if a = ''idn'' then Some (P\<lparr>param_itemDistractorNoise := atof v\<rparr>, n)
        else if a = ''iio'' then Some (P\<lparr>param_itemItemOverlap := atof v\<rparr>, n)
        else if a = ''ido'' then Some (P\<lparr>param_itemDistractorOverlap := atof v\<rparr>, n)
        else None)"

text \<open>The analysis of the command line, on the arguments \<^verbatim>\<open>argv[1..argc-1]\<close>.\<close>

fun analyze_command_line ::
  "(string \<Rightarrow> int) \<Rightarrow> (string \<Rightarrow> real) \<Rightarrow> string list \<Rightarrow> params \<times> int \<Rightarrow> abort + params \<times> int" where
  "analyze_command_line atoi atof [] acc = Inr acc"
| "analyze_command_line atoi atof [a] acc =
     (if a = ''?'' then Inl Syntax_help
      else if a = ''-v'' then Inr (fst acc\<lparr>VERBOSE := 1\<rparr>, snd acc)
      else if a = ''-q'' then Inr (fst acc\<lparr>QUIET := 1\<rparr>, snd acc)
      else (case option_value atoi atof a [] acc of
              Some acc' \<Rightarrow> Inl (Null_argument a)
            | None \<Rightarrow> Inl (Error_exit ''Unknown parameter:'' a)))"
| "analyze_command_line atoi atof (a # v # rest) acc =
     (if a = ''?'' then Inl Syntax_help
      else if a = ''-v'' then analyze_command_line atoi atof (v # rest) (fst acc\<lparr>VERBOSE := 1\<rparr>, snd acc)
      else if a = ''-q'' then analyze_command_line atoi atof (v # rest) (fst acc\<lparr>QUIET := 1\<rparr>, snd acc)
      else (case option_value atoi atof a v acc of
              Some acc' \<Rightarrow> analyze_command_line atoi atof rest acc'
            | None \<Rightarrow> Inl (Error_exit ''Unknown parameter:'' a)))"

text \<open>\<^verbatim>\<open>main\<close> up to the simulations: the embeddings file is opened and read into
  \<^verbatim>\<open>embeddingsList\<close> first (\<open>file\<close> is \<open>None\<close> when \<^verbatim>\<open>fopen\<close> fails, the table read
  otherwise), then the command line is analysed and checked.\<close>

definition main_setup ::
  "(string \<Rightarrow> int) \<Rightarrow> (string \<Rightarrow> real) \<Rightarrow> (nat \<Rightarrow> nat \<Rightarrow> real) option \<Rightarrow> string list \<Rightarrow>
   params \<Rightarrow> state \<Rightarrow> abort + params \<times> int \<times> state" where
  "main_setup atoi atof file args P s =
     (case file of
        None \<Rightarrow> Inl Error_opening_file
      | Some table \<Rightarrow>
          (case analyze_command_line atoi atof args (P, 500) of
             Inl e \<Rightarrow> Inl e
           | Inr (P', n) \<Rightarrow>
               if nbop P' > 16 then Inl (Error_exit ''Cannot handle more than 16 operations.'' [])
               else if param_itemDistractorOverlap P' < 0 \<or> param_itemDistractorOverlap P' > 1
               then Inl (Error_exit ''Item distractor overlap should be between 0 and 1.'' [])
               else Inr (P', n, main_model_variables P' (s\<lparr>embeddingsList := table\<rparr>))))"

text \<open>The stimulus: for each memorandum its letter, then the digits of the operations, and
  \<open>#\<close> for the recall; characters are given by their codes.\<close>

definition stimuli :: "params \<Rightarrow> nat list" where
  "stimuli P =
     concat (map (\<lambda>i. (65 + i) # map (\<lambda>j. j + 48) [1..<nat (nbop P) + 1]) [0..<nat (nbmemo P)]) @ [35]"

text \<open>The start of a trial: representations, the item-position matrix zeroed, the counters
  reset.\<close>

definition trial_start :: "params \<Rightarrow> state \<Rightarrow> state" where
  "trial_start P s =
     (let s1 = generatePositionRepresentations P s;
          (ltm, s2) = generateItemRepresentations P (itemVectorsInLTM s1, s1);
          s3 = s2\<lparr>itemVectorsInLTM := ltm\<rparr>
      in s3\<lparr>itemPositionMatrix :=
              (\<lambda>i j. if 1 \<le> i \<and> i \<le> maxItem \<and> 1 \<le> j \<and> j \<le> nbPositionUnits s3 then 0
                     else itemPositionMatrix s3 i j),
            distractorNumber := 0\<rparr>)"

text \<open>The test and the increment that open the processing of a distractor symbol
  (lines 1045--1048).\<close>

definition begin_distractor :: "params \<Rightarrow> state \<Rightarrow> abort + state" where
  "begin_distractor P s =
     (if distractorNumber s > maxDistractors
      then Inl (Error_exit
        ''number of distractors is higher than what is allowed in the program. Increase maxDistractors constant'' [])
      else Inr (if param_sameDist P = 0 then s\<lparr>distractorNumber := distractorNumber s + 1\<rparr> else s))"

text \<open>The main loop of a trial over the symbols of the stimulus.  The accumulator holds
  \<^verbatim>\<open>lastPosition\<close> and the state; the result is \<open>None\<close> when a refresh never returns, an abort,
  or the recalled string with the final \<^verbatim>\<open>lastPosition\<close> and state.\<close>

fun trial_loop ::
  "params \<Rightarrow> char list \<Rightarrow> nat list \<Rightarrow> nat \<times> state \<Rightarrow> (abort + char list \<times> nat \<times> state) option" where
  "trial_loop P recalled [] acc = Some (Inl Stimulus_overrun)"
| "trial_loop P recalled (symbol # rest) acc =
     (case acc of (lastPosition0, s) \<Rightarrow>
        if symbol \<ge> 65 \<and> symbol \<le> 90 then
          (let lastPosition = lastPosition0 + 1;
               s1 = s\<lparr>lastItem := symbol - 65 + 1\<rparr>;
               (encodingDuration, s2) =
                  encode P 1 (symbol - 65 + 1) (- 1) lastPosition (presentationTime P) 1 (- 1) 0 s1
           in if encodingDuration < 0
              then Some (Inl (Error_exit ''There should be no error in initial encoding...'' []))
              else (case refresh P (presentationTime P - encodingDuration) lastPosition s2 of
                      None \<Rightarrow> None
                    | Some s3 \<Rightarrow> trial_loop P recalled rest (lastPosition, s3)))
        else if symbol \<ge> 48 \<and> symbol \<le> 57 + 7 then
          (case begin_distractor P s of
             Inl e \<Rightarrow> Some (Inl e)
           | Inr s1 \<Rightarrow>
               (let (processingDuration, s2) = processing P lastPosition0 s1;
                    timeLeft = (if param_freeTimeIncludesOpDuration P \<noteq> 0
                                then param_freeTime P - processingDuration else param_freeTime P)
                in case refresh P timeLeft lastPosition0 s2 of
                     None \<Rightarrow> None
                   | Some s3 \<Rightarrow> trial_loop P recalled rest (lastPosition0, s3)))
        else if symbol = 35 then
          (case recall P lastPosition0 recalled s of
             (recalled', s') \<Rightarrow> Some (Inr (recalled', lastPosition0, s')))
        else Some (Inl (Error_exit ''Unknown symbol in stimulus'' [])))"

section \<open>Refreshing in binary32 arithmetic\<close>

text \<open>
  The functions above compute in the reals.  Whether the loop of \<^verbatim>\<open>refresh\<close> ends depends on
  how the \<^verbatim>\<open>float\<close> arithmetic of the program rounds the reencoding duration and the remaining
  time, so \<^verbatim>\<open>encode\<close> and \<^verbatim>\<open>refresh\<close> are given here a second time, with the \<^verbatim>\<open>float\<close>
  operations and the assignments to \<^verbatim>\<open>float\<close> variables in the bodies of \<^verbatim>\<open>encode\<close> and
  \<^verbatim>\<open>refresh\<close> rounded to binary32.  (The functions they call, \<^verbatim>\<open>retrieve\<close>, \<^verbatim>\<open>decay\<close>,
  \<^verbatim>\<open>interfere\<close> and \<^verbatim>\<open>randomNormal\<close>, and the two blocks \<open>encode_distractor\<close> and
  \<open>strengthen\<close> of \<^verbatim>\<open>encode\<close>, are the ones above; they have no part in the durations.)

  \<open>float32 x\<close> is the binary32 number nearest to \<open>x\<close>, ties to the even significand:
  \<open>e\<close> is the exponent of \<open>x\<close> (\<open>-126\<close> in the subnormal range) and \<open>ulp\<close> the distance of
  neighbouring binary32 numbers at that exponent.  The overflow to infinity of a value beyond
  the largest binary32 number is not represented.  The library functions \<^verbatim>\<open>log\<close> and \<^verbatim>\<open>exp\<close>
  work in \<^verbatim>\<open>double\<close>; an expression in \<^verbatim>\<open>double\<close> is taken as exact up to the conversion of its
  value to \<^verbatim>\<open>float\<close>.
\<close>

definition round_even :: "real \<Rightarrow> int" where
  "round_even x =
     (let f = \<lfloor>x\<rfloor>
      in if x - of_int f < 1 / 2 then f
         else if x - of_int f > 1 / 2 then f + 1
         else if even f then f else f + 1)"

definition float32 :: "real \<Rightarrow> real" where
  "float32 x =
     (if x = 0 then 0
      else (let e = max (- 126) \<lfloor>log 2 \<bar>x\<bar>\<rfloor>;
                ulp = 2 powi (e - 23)
            in ulp * of_int (round_even (x / ulp))))"

text \<open>The first block of \<^verbatim>\<open>encode\<close> (compare \<open>encode_duration\<close>): \<^verbatim>\<open>1-var_tauR\<close> is a
  \<^verbatim>\<open>float\<close> subtraction, and the quotient is converted when it is assigned to \<^verbatim>\<open>var_tr\<close>.\<close>

definition encode_duration_f32 ::
  "params \<Rightarrow> int \<Rightarrow> nat \<Rightarrow> real \<Rightarrow> int \<Rightarrow> real \<Rightarrow> int \<Rightarrow> real \<Rightarrow> state \<Rightarrow> real \<times> state" where
  "encode_duration_f32 P initialEncoding currentItem timeLeft strengthDivisor duration distractor r s =
     (if initialEncoding \<noteq> 0 then
        (if distractor \<noteq> 0 then (0, s)
         else
           (let s1 = s\<lparr>itemVectorsInWM :=
                        fold (\<lambda>j m. m(cell currentItem j := itemVectorsInLTM s (cell currentItem j)))
                          [1..<nbItemUnits + 1] (itemVectorsInWM s)\<rparr>;
                te = float32 (logTauE s1 / r);
                s2 = s1\<lparr>var_te := (if te > presentationTime P then presentationTime P else te)\<rparr>;
                encodingDuration = var_te s2
            in (encodingDuration,
                s2\<lparr>var_eta := float32 (1 - exp (- float32 (r * encodingDuration)))\<rparr>)))
      else
        (let (encodingDuration, s1) =
               (if duration = - 1
                then (let tr = float32 (- ln (float32 (1 - var_tauR s)) / r);
                          s1 = s\<lparr>var_tr := (if tr > timeLeft then timeLeft else tr)\<rparr>
                      in (var_tr s1, s1))
                else (duration, s));
             s2 = s1\<lparr>var_eta := float32 (1 - exp (- float32 (r * encodingDuration)))\<rparr>
         in (encodingDuration, s2\<lparr>var_eta := float32 (var_eta s2 / real_of_int strengthDivisor)\<rparr>)))"

text \<open>\<^verbatim>\<open>encode\<close> (compare \<open>encode\<close>): the rate \<^verbatim>\<open>var_r\<close> is the \<^verbatim>\<open>float\<close> that
  \<^verbatim>\<open>randomNormal\<close> returns, replaced by the \<^verbatim>\<open>float\<close> nearest to 0.1 when it is below 0.1.\<close>

definition encode_f32 ::
  "params \<Rightarrow> int \<Rightarrow> nat \<Rightarrow> int \<Rightarrow> nat \<Rightarrow> real \<Rightarrow> int \<Rightarrow> real \<Rightarrow> int \<Rightarrow> state \<Rightarrow> real \<times> state" where
  "encode_f32 P initialEncoding currentItem best position timeLeft strengthDivisor duration distractor s0 =
     (let (r0, s1) = randomNormal (param_R P) (param_s P) s0;
          var_r = (if float32 r0 < 1 / 10 then float32 (1 / 10) else float32 r0);
          (encodingDuration, s2) =
             encode_duration_f32 P initialEncoding currentItem timeLeft strengthDivisor duration distractor var_r s1;
          s3 = s2\<lparr>globalTime := float32 (globalTime s2 + encodingDuration)\<rparr>;
          s4 = (if distractor = 0 \<and> duration = - 1
                then s3\<lparr>itemPositionMatrix :=
                        decay (nbPositionUnits s3) (itemPositionMatrix s3)
                          (float32 (exp (- float32 (param_D P * encodingDuration)))) (int currentItem)\<rparr>
                else s3);
          s5 = (if distractor \<noteq> 0 then encode_distractor P position s4 else s4);
          s6 = s5\<lparr>itemPositionMatrix := strengthen P currentItem position s5\<rparr>;
          s7 = (if initialEncoding = 0 \<and> distractor = 0
                then s6\<lparr>itemVectorsInWM :=
                        interfere (itemVectorsInWM s6) (cell (nat best) 0)
                          (row (itemVectorsInLTM s6) currentItem) (1 / 2)\<rparr>
                else s6)
      in (encodingDuration, s7))"

text \<open>The loops of \<^verbatim>\<open>refresh\<close> (compare \<open>refresh_item\<close>, \<open>refresh_window\<close>, \<open>refresh_loop\<close> and
  \<open>refresh\<close>): \<^verbatim>\<open>timeAvailable-=reencodingDuration\<close> is a \<^verbatim>\<open>float\<close> subtraction.\<close>

definition refresh_item_f32 ::
  "params \<Rightarrow> nat \<Rightarrow> real \<Rightarrow> nat \<times> real \<times> nat \<times> state \<Rightarrow> nat \<times> real \<times> nat \<times> state" where
  "refresh_item_f32 P lastPosition timeAvailable acc =
     (case acc of (cpi, reencodingDuration, best, s) \<Rightarrow>
        (let (r, s1) = retrieve P cpi 1 best s;
             (d, s2) = encode_f32 P 0 (retrievedItem r) (int (bestWMItem r)) cpi timeAvailable
                         (min_c (param_attentionalFocusSize P) (int lastPosition)) reencodingDuration 0 s1;
             cpi' = (if cpi + 1 > lastPosition then 1 else cpi + 1)
         in (cpi', d, bestWMItem r, s2)))"

primrec refresh_window_f32 ::
  "params \<Rightarrow> nat \<Rightarrow> real \<Rightarrow> nat \<Rightarrow> nat \<times> real \<times> nat \<times> state \<Rightarrow> nat \<times> real \<times> nat \<times> state" where
  "refresh_window_f32 P lastPosition timeAvailable 0 acc = acc"
| "refresh_window_f32 P lastPosition timeAvailable (Suc afsi) acc =
     refresh_window_f32 P lastPosition timeAvailable afsi (refresh_item_f32 P lastPosition timeAvailable acc)"

partial_function (option) refresh_loop_f32 ::
  "params \<Rightarrow> nat \<Rightarrow> real \<times> nat \<times> nat \<times> state \<Rightarrow> state option" where
  "refresh_loop_f32 P lastPosition v =
     (case v of (timeAvailable, currentPosition, best, s) \<Rightarrow>
        if timeAvailable > 0 then
          (case refresh_window_f32 P lastPosition timeAvailable
                  (nat (min_c (param_attentionalFocusSize P) (int lastPosition)))
                  (currentPosition, - 1, best, s) of
             (cpi, reencodingDuration, best', s') \<Rightarrow>
               refresh_loop_f32 P lastPosition
                 (if float32 (timeAvailable - reencodingDuration) < 0 then 0
                  else float32 (timeAvailable - reencodingDuration),
                  cpi, best', s'))
        else Some s)"

definition refresh_f32 :: "params \<Rightarrow> real \<Rightarrow> nat \<Rightarrow> state \<Rightarrow> state option" where
  "refresh_f32 P timeAvailable lastPosition s =
     refresh_loop_f32 P lastPosition (timeAvailable, 1, stack_junk s, s)"

section \<open>Concrete inputs\<close>

text \<open>A machine state with every array zeroed, the 54 position units of \<^verbatim>\<open>main\<close>, and a
  random generator that always returns 1.\<close>

definition blank_state :: state where
  "blank_state = \<lparr>
     var_te = 0, var_tr = 0, var_eta = 0, var_tauR = 0, var_Rop = 0, var_rop = 0, var_ta = 0,
     logTauE = 0, globalTime = 0, nbPositionUnits = 54, lastItem = 0, distractorNumber = 0,
     embeddingsList = (\<lambda>i j. 0), positionVectors = (\<lambda>p i. 0), itemVectorsInWM = (\<lambda>a. 0),
     itemVectorsInLTM = (\<lambda>a. 0), itemPositionMatrix = (\<lambda>i j. 0), rand_seq = (\<lambda>k. 1),
     rand_calls = 0, stack_junk = 0 \<rparr>"

text \<open>A state in which item 1 is the only item associated with position 1, and its WM
  vector has drifted onto the LTM vector of item 2 (every unit 1/2).\<close>

definition crossed_state :: state where
  "crossed_state = blank_state\<lparr>
     positionVectors := (\<lambda>p i. if i mod 6 = 1 then 1 else 0),
     itemPositionMatrix := (\<lambda>i j. if i = 1 \<and> j = 1 then 1 / 9 else 0),
     itemVectorsInWM := (\<lambda>a. 1 / 2),
     itemVectorsInLTM := (\<lambda>a. if cell 2 1 \<le> a \<and> a \<le> cell 2 100 then 1 / 2 else 0)\<rparr>"


section \<open>Auxiliary notions\<close>

text \<open>Two states that agree on the globals no model operation but \<^verbatim>\<open>main\<close> assigns (and on the
  distractor counter), and a state whose random generator returns values in \<open>1..RAND_MAX\<close>
  and whose model variables are those of a configuration with \<open>0 < var_tauR < 1\<close> and
  \<open>logTauE \<ge> 0\<close>.\<close>

definition same_globals :: "state \<Rightarrow> state \<Rightarrow> bool" where
  "same_globals s s' =
     (distractorNumber s' = distractorNumber s \<and> var_tauR s' = var_tauR s \<and>
      logTauE s' = logTauE s \<and> rand_seq s' = rand_seq s)"

definition regular_state :: "state \<Rightarrow> bool" where
  "regular_state s =
     (0 < var_tauR s \<and> var_tauR s < 1 \<and> 0 \<le> logTauE s \<and>
      (\<forall>k. 1 \<le> rand_seq s k \<and> rand_seq s k \<le> RAND_MAX))"


text \<open>The number of operation symbols of a stimulus before its recall symbol, when every
  symbol before it is a letter or an operation symbol.\<close>

fun distractors_before_recall :: "nat list \<Rightarrow> nat option" where
  "distractors_before_recall [] = None"
| "distractors_before_recall (symbol # rest) =
     (if symbol \<ge> 65 \<and> symbol \<le> 90 then distractors_before_recall rest
      else if symbol \<ge> 48 \<and> symbol \<le> 57 + 7
      then map_option Suc (distractors_before_recall rest)
      else if symbol = 35 then Some 0 else None)"
section \<open>Properties of retrieval\<close>

lemma c_trunc_unit: "0 \<le> x \<Longrightarrow> x < 1 \<Longrightarrow> c_trunc x = 0"
  by (simp add: c_trunc_def floor_eq_iff)

lemma noise_factor_zero: "0 \<le> param_sigma P \<Longrightarrow> param_sigma P < 1 \<Longrightarrow> noise_factor P = 0"
  by (simp add: noise_factor_def max_c_def c_trunc_unit)

lemma fold_cond_add:
  "fold (\<lambda>i acc. if c i then acc + g i else acc) [a..<b] (z::real) =
     z + (\<Sum>i = a..<b. if c i then g i else 0)"
proof (induction b)
  case 0
  then show ?case by simp
next
  case (Suc b)
  show ?case
  proof (cases "a \<le> b")
    case True
    then show ?thesis using Suc by (simp add: sum.atLeastLessThan_Suc)
  next
    case False
    then show ?thesis by simp
  qed
qed

lemma position_activation_sum:
  "position_activation s pos item =
     (\<Sum>i = 1..nbPositionUnits s. real_of_int (positionVectors s pos i) * itemPositionMatrix s item i)"
proof -
  have "position_activation s pos item =
      (\<Sum>i = 1..<nbPositionUnits s + 1.
         if positionVectors s pos i \<noteq> 0
         then real_of_int (positionVectors s pos i) * itemPositionMatrix s item i else 0)"
    unfolding position_activation_def by (simp add: fold_cond_add)
  also have "\<dots> = (\<Sum>i = 1..<nbPositionUnits s + 1.
         real_of_int (positionVectors s pos i) * itemPositionMatrix s item i)"
    by (rule sum.cong) auto
  finally show ?thesis by (simp add: atLeastLessThanSuc_atLeastAtMost)
qed

lemma randomNormal_state: "snd (randomNormal m sd s) = s\<lparr>rand_calls := rand_calls s + 2\<rparr>"
  by (simp add: randomNormal_def rand_def Let_def)

lemma item_activation_state: "snd (item_activation P pos item s) = s\<lparr>rand_calls := rand_calls s + 2\<rparr>"
  by (simp add: item_activation_def split_beta randomNormal_state)

lemma first_min_fold:
  fixes d :: "nat \<Rightarrow> real"
  defines "step \<equiv> (\<lambda>k acc. case acc of (m, r) \<Rightarrow> if d k < m then (d k, k) else (m, r))"
  shows "case fold step [a..<c] (m0, r0) of (m, r) \<Rightarrow>
     m \<le> m0 \<and> (\<forall>k. a \<le> k \<and> k < c \<longrightarrow> m \<le> d k) \<and>
     (if m < m0
      then a \<le> r \<and> r < c \<and> d r = m \<and> (\<forall>k. a \<le> k \<and> k < r \<longrightarrow> m < d k)
      else m = m0 \<and> r = r0)"
proof (induction c)
  case 0
  then show ?case by simp
next
  case (Suc c)
  show ?case
  proof (cases "a \<le> c")
    case False
    then show ?thesis by simp
  next
    case True
    obtain m r where mr: "fold step [a..<c] (m0, r0) = (m, r)"
      by (cases "fold step [a..<c] (m0, r0)")
    from Suc mr have le: "m \<le> m0" and all: "\<And>k. a \<le> k \<Longrightarrow> k < c \<Longrightarrow> m \<le> d k"
      and sel: "if m < m0
        then a \<le> r \<and> r < c \<and> d r = m \<and> (\<forall>k. a \<le> k \<and> k < r \<longrightarrow> m < d k)
        else m = m0 \<and> r = r0"
      by auto
    have unfold: "fold step [a..<Suc c] (m0, r0) = step c (m, r)"
      using True mr by simp
    show ?thesis
    proof (cases "d c < m")
      case less: True
      have res: "fold step [a..<Suc c] (m0, r0) = (d c, c)"
        using unfold less by (simp add: step_def)
      have "\<And>k. a \<le> k \<Longrightarrow> k < Suc c \<Longrightarrow> d c \<le> d k"
      proof -
        fix k assume "a \<le> k" "k < Suc c"
        then show "d c \<le> d k"
          using all [of k] less by (cases "k = c") auto
      qed
      moreover have "\<And>k. a \<le> k \<Longrightarrow> k < c \<Longrightarrow> d c < d k"
        using all less by fastforce
      moreover have "d c < m0" using less le by simp
      ultimately show ?thesis using res True by simp
    next
      case geq: False
      have res: "fold step [a..<Suc c] (m0, r0) = (m, r)"
        using unfold geq by (simp add: step_def)
      have "\<And>k. a \<le> k \<Longrightarrow> k < Suc c \<Longrightarrow> m \<le> d k"
      proof -
        fix k assume "a \<le> k" "k < Suc c"
        then show "m \<le> d k"
          using all [of k] geq by (cases "k = c") auto
      qed
      then show ?thesis using res le sel by (auto split: if_splits)
    qed
  qed
qed

lemma closest_step_eq:
  "closest_step s b =
     (\<lambda>k acc. case acc of (m, r) \<Rightarrow>
        if rmse (row (itemVectorsInWM s) b) (row (itemVectorsInLTM s) k) nbItemUnits < m
        then (rmse (row (itemVectorsInWM s) b) (row (itemVectorsInLTM s) k) nbItemUnits, k)
        else (m, r))"
  by (rule ext)+ (simp add: closest_step_def Let_def)


lemma rmse_sum:
  "rmse v1 v2 n = sqrt ((\<Sum>i = 1..n. (v1 i - v2 i)\<^sup>2) / real n)"
proof -
  have F: "fold (\<lambda>i acc. acc + (v1 i - v2 i) * (v1 i - v2 i)) [a..<b] (z::real) =
      z + (\<Sum>i = a..<b. (v1 i - v2 i)\<^sup>2)" for a b z
    using fold_cond_add [of "\<lambda>_. True" "\<lambda>i. (v1 i - v2 i) * (v1 i - v2 i)" a b z]
    by (simp add: power2_eq_square)
  show ?thesis
    unfolding rmse_def F by (simp add: atLeastLessThanSuc_atLeastAtMost)
qed

lemma activation_fold_state:
  "snd (snd (fold (activation_step P pos) xs (m0, b0, s))) =
     s\<lparr>rand_calls := rand_calls s + 2 * length xs\<rparr>"
proof (induction xs arbitrary: m0 b0 s)
  case Nil
  then show ?case by simp
next
  case (Cons x xs)
  obtain m b s' where st: "activation_step P pos x (m0, b0, s) = (m, b, s')"
    by (cases "activation_step P pos x (m0, b0, s)")
  then have "s' = s\<lparr>rand_calls := rand_calls s + 2\<rparr>"
    using item_activation_state [of P pos x s]
    by (auto simp: activation_step_def split_beta split: if_splits)
  then show ?case using Cons [of m b s'] st by simp
qed

lemma first_max_fold:
  fixes d :: "nat \<Rightarrow> real"
  defines "step \<equiv> (\<lambda>k acc. case acc of (m, r) \<Rightarrow> if d k > m then (d k, k) else (m, r))"
  shows "case fold step [a..<c] (m0, r0) of (m, r) \<Rightarrow>
     m0 \<le> m \<and> (\<forall>k. a \<le> k \<and> k < c \<longrightarrow> d k \<le> m) \<and>
     (if m0 < m
      then a \<le> r \<and> r < c \<and> d r = m \<and> (\<forall>k. a \<le> k \<and> k < r \<longrightarrow> d k < m)
      else m = m0 \<and> r = r0)"
proof -
  have eq: "step = (\<lambda>k acc. case acc of (m, r) \<Rightarrow> (\<lambda>(x, y). (- x, y))
      (case (- m, r) of (m', r') \<Rightarrow> if - d k < m' then (- d k, k) else (m', r')))"
    by (rule ext)+ (simp add: step_def split_beta)
  have conj: "fold step xs (m, r) = (\<lambda>(x, y). (- x, y))
      (fold (\<lambda>k acc. case acc of (m', r') \<Rightarrow> if - d k < m' then (- d k, k) else (m', r')) xs (- m, r))"
    for xs m r
    by (induction xs arbitrary: m r) (simp_all add: step_def)
  obtain m' r' where mr: "fold (\<lambda>k acc. case acc of (m', r') \<Rightarrow> if - d k < m' then (- d k, k) else (m', r'))
      [a..<c] (- m0, r0) = (m', r')"
    by (cases "fold (\<lambda>k acc. case acc of (m', r') \<Rightarrow> if - d k < m' then (- d k, k) else (m', r'))
      [a..<c] (- m0, r0)")
  have res: "fold step [a..<c] (m0, r0) = (- m', r')"
    unfolding conj mr by simp
  have "m' \<le> - m0 \<and> (\<forall>k. a \<le> k \<and> k < c \<longrightarrow> m' \<le> - d k) \<and>
     (if m' < - m0
      then a \<le> r' \<and> r' < c \<and> - d r' = m' \<and> (\<forall>k. a \<le> k \<and> k < r' \<longrightarrow> m' < - d k)
      else m' = - m0 \<and> r' = r0)"
    using first_min_fold [where d = "\<lambda>k. - d k" and a = a and c = c and ?m0.0 = "- m0" and ?r0.0 = r0]
    unfolding mr by simp
  then show ?thesis
    unfolding res by (auto split: if_splits)
qed

text \<open>The activation the loop computes for item k, when the loop started at item a in state s.\<close>

lemma activation_fold:
  fixes P pos a s
  defines "act \<equiv> (\<lambda>k. fst (item_activation P pos k (s\<lparr>rand_calls := rand_calls s + 2 * (k - a)\<rparr>)))"
  shows "case fold (activation_step P pos) [a..<c] (m0, b0, s) of (m, b, s') \<Rightarrow>
     s' = s\<lparr>rand_calls := rand_calls s + 2 * (c - a)\<rparr> \<and>
     (m, b) = fold (\<lambda>k acc. case acc of (m, r) \<Rightarrow> if act k > m then (act k, k) else (m, r))
                [a..<c] (m0, b0)"
proof (induction c)
  case 0
  then show ?case by simp
next
  case (Suc c)
  show ?case
  proof (cases "a \<le> c")
    case False
    then show ?thesis by simp
  next
    case True
    obtain m b s' where st: "fold (activation_step P pos) [a..<c] (m0, b0, s) = (m, b, s')"
      by (cases "fold (activation_step P pos) [a..<c] (m0, b0, s)") auto
    with Suc have s': "s' = s\<lparr>rand_calls := rand_calls s + 2 * (c - a)\<rparr>"
      and mb: "(m, b) = fold (\<lambda>k acc. case acc of (m, r) \<Rightarrow> if act k > m then (act k, k) else (m, r))
                [a..<c] (m0, b0)"
      by auto
    have act: "fst (item_activation P pos c s') = act c"
      by (simp add: act_def s')
    have nxt: "snd (item_activation P pos c s') = s\<lparr>rand_calls := rand_calls s + 2 * (Suc c - a)\<rparr>"
      using True by (simp add: item_activation_state s' Suc_diff_le)
    have step: "activation_step P pos c (m, b, s') =
        (if act c > m then (act c, c, s\<lparr>rand_calls := rand_calls s + 2 * (Suc c - a)\<rparr>)
         else (m, b, s\<lparr>rand_calls := rand_calls s + 2 * (Suc c - a)\<rparr>))"
      using act nxt by (simp add: activation_step_def split_beta)
    have L: "fold (activation_step P pos) [a..<Suc c] (m0, b0, s) =
        (if act c > m then (act c, c, s\<lparr>rand_calls := rand_calls s + 2 * (Suc c - a)\<rparr>)
         else (m, b, s\<lparr>rand_calls := rand_calls s + 2 * (Suc c - a)\<rparr>))"
      using True st step by simp
    have R: "fold (\<lambda>k acc. case acc of (m, r) \<Rightarrow> if act k > m then (act k, k) else (m, r))
                [a..<Suc c] (m0, b0) = (if act c > m then (act c, c) else (m, b))"
      using True mb [symmetric] by simp
    show ?thesis
      unfolding L R by simp
  qed
qed


lemma retrieval_time_frame:
  "\<exists>t n. retrieval_time P status s = s\<lparr>var_tr := t, rand_calls := n\<rparr>"
proof -
  have "retrieval_time P status s =
      s\<lparr>var_tr := var_tr (retrieval_time P status s),
        rand_calls := rand_calls (retrieval_time P status s)\<rparr>"
    by (simp add: retrieval_time_def split_beta Let_def randomNormal_state)
  then show ?thesis by blast
qed

lemma closest_step_cong:
  "itemVectorsInWM s = itemVectorsInWM s' \<Longrightarrow> itemVectorsInLTM s = itemVectorsInLTM s' \<Longrightarrow>
   closest_step s = closest_step s'"
  by (rule ext)+ (simp add: closest_step_def)

lemma retrieve_unfold:
  fixes P pos status best0 s0
  defines "s1 \<equiv> retrieval_time P status s0"
  defines "live \<equiv> maxMemoranda + distractorNumber s0"
  defines "act \<equiv> (\<lambda>k. fst (item_activation P pos k (s1\<lparr>rand_calls := rand_calls s1 + 2 * (k - 1)\<rparr>)))"
  defines "mb \<equiv> fold (\<lambda>k acc. case acc of (m, r) \<Rightarrow> if act k > m then (act k, k) else (m, r))
                  [1..<live + 1] (- 99999, best0)"
  shows "retrieve P pos status best0 s0 =
     (\<lparr>retrievedItem =
          (if fst mb < param_theta P then 0
           else snd (fold (closest_step s0 (snd mb)) [1..<live + 1] (99999, stack_junk s0))),
        activationMax = fst mb, retrievalDuration = var_tr s1, bestWMItem = snd mb\<rparr>,
      s1\<lparr>rand_calls := rand_calls s1 + 2 * live\<rparr>)"
proof -
  obtain t n where s1: "s1 = s0\<lparr>var_tr := t, rand_calls := n\<rparr>"
    using retrieval_time_frame [of P status s0] by (auto simp: s1_def)
  have live: "maxMemoranda + distractorNumber s1 = live"
    by (simp add: s1 live_def)
  obtain m b s2 where f: "fold (activation_step P pos) [1..<live + 1] (- 99999, best0, s1) = (m, b, s2)"
    by (cases "fold (activation_step P pos) [1..<live + 1] (- 99999, best0, s1)") auto
  have "s2 = s1\<lparr>rand_calls := rand_calls s1 + 2 * (live + 1 - 1)\<rparr> \<and> (m, b) = mb"
    using activation_fold [where P = P and pos = pos and a = 1 and c = "live + 1"
        and ?m0.0 = "- 99999" and ?b0.0 = best0 and s = s1] f
    unfolding mb_def act_def by simp
  then have s2: "s2 = s1\<lparr>rand_calls := rand_calls s1 + 2 * live\<rparr>" and mb: "mb = (m, b)"
    by simp_all
  have cl: "closest_step s2 b = closest_step s0 b"
    by (rule arg_cong [where f = "\<lambda>f. f b"], rule closest_step_cong) (simp_all add: s2 s1)
  have junk: "stack_junk s2 = stack_junk s0" by (simp add: s2 s1)
  show ?thesis
    unfolding retrieve_def Let_def s1_def [symmetric] live f mb prod.case cl junk
    by (simp add: s2)
qed


lemma retrieve_activation_props:
  fixes P pos status best0 s
  defines "r \<equiv> fst (retrieve P pos status best0 s)"
  defines "s1 \<equiv> retrieval_time P status s"
  defines "live \<equiv> maxMemoranda + distractorNumber s"
  defines "act \<equiv> (\<lambda>k. fst (item_activation P pos k (s1\<lparr>rand_calls := rand_calls s1 + 2 * (k - 1)\<rparr>)))"
  shows "- 99999 \<le> activationMax r"
    and "\<And>k. 1 \<le> k \<Longrightarrow> k \<le> live \<Longrightarrow> act k \<le> activationMax r"
    and "- 99999 < activationMax r \<Longrightarrow>
           1 \<le> bestWMItem r \<and> bestWMItem r \<le> live \<and> act (bestWMItem r) = activationMax r \<and>
           (\<forall>k. 1 \<le> k \<and> k < bestWMItem r \<longrightarrow> act k < activationMax r)"
    and "\<not> - 99999 < activationMax r \<Longrightarrow> bestWMItem r = best0"
proof -
  define mb where "mb = fold (\<lambda>k acc. case acc of (m, r) \<Rightarrow> if act k > m then (act k, k) else (m, r))
                  [1..<live + 1] (- 99999, best0)"
  have r: "activationMax r = fst mb" "bestWMItem r = snd mb"
    unfolding r_def mb_def act_def s1_def live_def by (simp_all add: retrieve_unfold)
  have inv: "- 99999 \<le> fst mb \<and> (\<forall>k. 1 \<le> k \<and> k < live + 1 \<longrightarrow> act k \<le> fst mb) \<and>
     (if - 99999 < fst mb
      then 1 \<le> snd mb \<and> snd mb < live + 1 \<and> act (snd mb) = fst mb \<and>
        (\<forall>k. 1 \<le> k \<and> k < snd mb \<longrightarrow> act k < fst mb)
      else fst mb = - 99999 \<and> snd mb = best0)"
    using first_max_fold [where d = act and a = 1 and c = "live + 1" and ?m0.0 = "- 99999"
        and ?r0.0 = best0, folded mb_def]
    by (auto simp: split_beta split: if_splits)
  show "- 99999 \<le> activationMax r" using inv r by simp
  show "\<And>k. 1 \<le> k \<Longrightarrow> k \<le> live \<Longrightarrow> act k \<le> activationMax r" using inv r by simp
  show "- 99999 < activationMax r \<Longrightarrow>
           1 \<le> bestWMItem r \<and> bestWMItem r \<le> live \<and> act (bestWMItem r) = activationMax r \<and>
           (\<forall>k. 1 \<le> k \<and> k < bestWMItem r \<longrightarrow> act k < activationMax r)"
    using inv r by simp
  show "\<not> - 99999 < activationMax r \<Longrightarrow> bestWMItem r = best0" using inv r by simp
qed

lemma retrieve_item_props:
  fixes P pos status best0 s
  defines "r \<equiv> fst (retrieve P pos status best0 s)"
  defines "live \<equiv> maxMemoranda + distractorNumber s"
  defines "d \<equiv> (\<lambda>k. rmse (row (itemVectorsInWM s) (bestWMItem r)) (row (itemVectorsInLTM s) k) nbItemUnits)"
  shows "activationMax r < param_theta P \<Longrightarrow> retrievedItem r = 0"
    and "\<not> activationMax r < param_theta P \<Longrightarrow> 1 \<le> k \<Longrightarrow> k \<le> live \<Longrightarrow> d k < 99999 \<Longrightarrow>
           1 \<le> retrievedItem r \<and> retrievedItem r \<le> live \<and>
           (\<forall>j. 1 \<le> j \<and> j \<le> live \<longrightarrow> d (retrievedItem r) \<le> d j) \<and>
           (\<forall>j. 1 \<le> j \<and> j < retrievedItem r \<longrightarrow> d (retrievedItem r) < d j)"
    and "\<not> activationMax r < param_theta P \<Longrightarrow> (\<And>k. 1 \<le> k \<Longrightarrow> k \<le> live \<Longrightarrow> \<not> d k < 99999) \<Longrightarrow>
           retrievedItem r = stack_junk s"
proof -
  define mr where "mr = fold (closest_step s (bestWMItem r)) [1..<live + 1] (99999, stack_junk s)"
  have item: "retrievedItem r = (if activationMax r < param_theta P then 0 else snd mr)"
    unfolding r_def mr_def live_def by (simp add: retrieve_unfold)
  have inv: "fst mr \<le> 99999 \<and> (\<forall>k. 1 \<le> k \<and> k < live + 1 \<longrightarrow> fst mr \<le> d k) \<and>
     (if fst mr < 99999
      then 1 \<le> snd mr \<and> snd mr < live + 1 \<and> d (snd mr) = fst mr \<and>
        (\<forall>k. 1 \<le> k \<and> k < snd mr \<longrightarrow> fst mr < d k)
      else fst mr = 99999 \<and> snd mr = stack_junk s)"
    using first_min_fold [where d = d and a = 1 and c = "live + 1" and ?m0.0 = 99999
        and ?r0.0 = "stack_junk s", unfolded d_def, folded closest_step_eq, folded mr_def]
    by (auto simp: split_beta d_def split: if_splits)
  show "activationMax r < param_theta P \<Longrightarrow> retrievedItem r = 0"
    using item by simp
  show "\<not> activationMax r < param_theta P \<Longrightarrow> 1 \<le> k \<Longrightarrow> k \<le> live \<Longrightarrow> d k < 99999 \<Longrightarrow>
           1 \<le> retrievedItem r \<and> retrievedItem r \<le> live \<and>
           (\<forall>j. 1 \<le> j \<and> j \<le> live \<longrightarrow> d (retrievedItem r) \<le> d j) \<and>
           (\<forall>j. 1 \<le> j \<and> j < retrievedItem r \<longrightarrow> d (retrievedItem r) < d j)"
  proof -
    assume a: "\<not> activationMax r < param_theta P" "1 \<le> k" "k \<le> live" "d k < 99999"
    then have "fst mr \<le> d k" using inv by simp
    then have lt: "fst mr < 99999" using a by simp
    then show ?thesis using inv item a by (auto simp: less_Suc_eq_le)
  qed
  show "\<not> activationMax r < param_theta P \<Longrightarrow> (\<And>k. 1 \<le> k \<Longrightarrow> k \<le> live \<Longrightarrow> \<not> d k < 99999) \<Longrightarrow>
           retrievedItem r = stack_junk s"
  proof -
    assume a: "\<not> activationMax r < param_theta P" and b: "\<And>k. 1 \<le> k \<Longrightarrow> k \<le> live \<Longrightarrow> \<not> d k < 99999"
    have "\<not> fst mr < 99999"
    proof
      assume "fst mr < 99999"
      then have "1 \<le> snd mr \<and> snd mr \<le> live \<and> d (snd mr) = fst mr" using inv by simp
      then show False using b [of "snd mr"] \<open>fst mr < 99999\<close> by simp
    qed
    then show ?thesis using inv item a by simp
  qed
qed




section \<open>Claims about retrieval\<close>

text \<open>
  C1 (defect of the code).  The claim: an item's activation is the sum over the position
  features plus Gaussian noise of standard deviation max(sigma, 0.0001), which is sigma (not
  0) for sigma in (0,1).  The code passes both arguments to an integer-valued max, so for
  every sigma in [0,1) the normal draw is multiplied by 0: the activation that retrieve
  computes for an item is the bare sum over the position features.
\<close>

theorem retrieve_activation_without_noise:
  assumes "0 \<le> param_sigma P" and "param_sigma P < 1"
  shows "fst (item_activation P pos item s) =
     (\<Sum>i = 1..nbPositionUnits s. real_of_int (positionVectors s pos i) * itemPositionMatrix s item i)
     \<and> noise_factor P = 0"
  using assms by (simp add: item_activation_def split_beta noise_factor_zero position_activation_sum)

theorem retrieve_activation_without_noise_witness:
  "fst (item_activation default_params 1 1 blank_state) = 0 \<and> noise_factor default_params = 0"
  using retrieve_activation_without_noise [of default_params 1 1 blank_state]
  by (simp add: default_params_def blank_state_def)





section \<open>Pattern generation: what each loop touches\<close>

lemma set_pattern_simps:
  "fst (set_pattern i v pt) = (fst pt)(i := v)"
  "snd (set_pattern i v pt) = i # snd pt"
  by (simp_all add: set_pattern_def split_beta)

lemma swap_pattern_simps:
  "fst (swap_pattern alea c pt) = ((fst pt)(alea := fst pt c))(c := fst pt alea)"
  "snd (swap_pattern alea c pt) = c # alea # c # alea # snd pt"
  by (simp_all add: swap_pattern_def split_beta)

lemma fill_fold:
  "fst (fold (\<lambda>i. set_pattern i v) xs pt) = (\<lambda>j. if j \<in> set xs then v else fst pt j)"
  "set (snd (fold (\<lambda>i. set_pattern i v) xs pt)) = set xs \<union> set (snd pt)"
  by (induction xs arbitrary: pt) (auto simp: set_pattern_simps)

lemma prefix_fold:
  fixes pt :: pattern_mem and v :: real
  defines "step \<equiv> (\<lambda>(c::nat) (acc :: nat \<times> pattern_mem). case acc of (i, pt) \<Rightarrow> (i + 1, set_pattern i v pt))"
  shows "fst (fold step xs (i, pt)) = i + length xs"
    and "fst (snd (fold step xs (i, pt))) = (\<lambda>j. if i \<le> j \<and> j < i + length xs then v else fst pt j)"
    and "set (snd (snd (fold step xs (i, pt)))) = {i..<i + length xs} \<union> set (snd pt)"
proof -
  have "fst (fold step xs (i, pt)) = i + length xs \<and>
     fst (snd (fold step xs (i, pt))) = (\<lambda>j. if i \<le> j \<and> j < i + length xs then v else fst pt j) \<and>
     set (snd (snd (fold step xs (i, pt)))) = {i..<i + length xs} \<union> set (snd pt)"
  proof (induction xs arbitrary: i pt)
    case Nil
    then show ?case by auto
  next
    case (Cons x xs)
    have st: "fold step (x # xs) (i, pt) = fold step xs (i + 1, set_pattern i v pt)"
      by (simp add: step_def)
    have IH: "fst (fold step xs (i + 1, set_pattern i v pt)) = i + 1 + length xs"
      "fst (snd (fold step xs (i + 1, set_pattern i v pt))) =
         (\<lambda>j. if i + 1 \<le> j \<and> j < i + 1 + length xs then v else fst (set_pattern i v pt) j)"
      "set (snd (snd (fold step xs (i + 1, set_pattern i v pt)))) =
         {i + 1..<i + 1 + length xs} \<union> set (snd (set_pattern i v pt))"
      using Cons [of "i + 1" "set_pattern i v pt"] by simp_all
    have "fst (fold step (x # xs) (i, pt)) = i + length (x # xs)"
      unfolding st IH by simp
    moreover have "fst (snd (fold step (x # xs) (i, pt))) =
        (\<lambda>j. if i \<le> j \<and> j < i + length (x # xs) then v else fst pt j)"
      unfolding st IH by (rule ext) (simp add: set_pattern_simps)
    moreover have "set (snd (snd (fold step (x # xs) (i, pt)))) =
        {i..<i + length (x # xs)} \<union> set (snd pt)"
      unfolding st IH by (auto simp: set_pattern_simps)
    ultimately show ?case by blast
  qed
  then show "fst (fold step xs (i, pt)) = i + length xs"
    and "fst (snd (fold step xs (i, pt))) = (\<lambda>j. if i \<le> j \<and> j < i + length xs then v else fst pt j)"
    and "set (snd (snd (fold step xs (i, pt)))) = {i..<i + length xs} \<union> set (snd pt)"
    by simp_all
qed


lemma similar_fold_frame:
  fixes ref :: "nat \<Rightarrow> real" and std :: real
  defines "step \<equiv> (\<lambda>i (acc :: pattern_mem \<times> state). case acc of (pt, s) \<Rightarrow>
         (let (val, s') = similar_value (ref i) std s in (set_pattern i val pt, s')))"
  shows "(j \<notin> set xs \<longrightarrow> fst (fst (fold step xs (pt, s))) j = fst pt j) \<and>
      set (snd (fst (fold step xs (pt, s)))) = set xs \<union> set (snd pt)"
proof (induction xs arbitrary: pt s)
  case Nil
  then show ?case by simp
next
  case (Cons x xs)
  obtain val s' where sv: "similar_value (ref x) std s = (val, s')"
    by (cases "similar_value (ref x) std s")
  have st: "fold step (x # xs) (pt, s) = fold step xs (set_pattern x val pt, s')"
    by (simp add: step_def sv)
  have IH: "j \<notin> set xs \<longrightarrow> fst (fst (fold step xs (set_pattern x val pt, s'))) j = fst (set_pattern x val pt) j"
    "set (snd (fst (fold step xs (set_pattern x val pt, s')))) = set xs \<union> set (snd (set_pattern x val pt))"
    using Cons [of "set_pattern x val pt" s'] by simp_all
  show ?case
    unfolding st using IH by (simp add: set_pattern_simps)
qed

lemma createSimilarRandomPattern_frame:
  "j \<notin> {mn..mx} \<Longrightarrow>
     fst (fst (createSimilarRandomPattern ref std mn mx (pt, s))) j = fst pt j"
  "set (snd (fst (createSimilarRandomPattern ref std mn mx (pt, s)))) = {mn..mx} \<union> set (snd pt)"
proof -
  have set: "set [mn..<mx + 1] = {mn..mx}" by auto
  show "j \<notin> {mn..mx} \<Longrightarrow>
     fst (fst (createSimilarRandomPattern ref std mn mx (pt, s))) j = fst pt j"
    using similar_fold_frame [of j "[mn..<mx + 1]" ref std pt s]
    unfolding createSimilarRandomPattern_def set by blast
  show "set (snd (fst (createSimilarRandomPattern ref std mn mx (pt, s)))) = {mn..mx} \<union> set (snd pt)"
    using similar_fold_frame [of j "[mn..<mx + 1]" ref std pt s]
    unfolding createSimilarRandomPattern_def set by blast
qed

lemma shuffle_fold_frame:
  assumes "\<forall>c\<in>set cs. fu \<le> c"
  shows "j < fu \<Longrightarrow> fst (fst (fold (shuffle_step n fu) cs (pt, s))) j = fst pt j"
    and "set (snd pt) \<subseteq> set (snd (fst (fold (shuffle_step n fu) cs (pt, s))))"
proof -
  have "(j < fu \<longrightarrow> fst (fst (fold (shuffle_step n fu) cs (pt, s))) j = fst pt j) \<and>
      set (snd pt) \<subseteq> set (snd (fst (fold (shuffle_step n fu) cs (pt, s))))"
    using assms
  proof (induction cs arbitrary: pt s)
    case Nil
    then show ?case by simp
  next
    case (Cons c cs)
    obtain r s' where rs: "rand s = (r, s')" by (cases "rand s")
    have st: "fold (shuffle_step n fu) (c # cs) (pt, s) =
        fold (shuffle_step n fu) cs (swap_pattern (r mod n + fu) c pt, s')"
      by (simp add: shuffle_step_def rs)
    have "fu \<le> c" using Cons.prems by simp
    then show ?case
      unfolding st using Cons.IH [of "swap_pattern (r mod n + fu) c pt" s'] Cons.prems
      by (auto simp: swap_pattern_simps)
  qed
  then show "j < fu \<Longrightarrow> fst (fst (fold (shuffle_step n fu) cs (pt, s))) j = fst pt j"
    and "set (snd pt) \<subseteq> set (snd (fst (fold (shuffle_step n fu) cs (pt, s))))"
    by simp_all
qed


lemma createOverlapingRandomPattern_stages:
  fixes P ref ps p pt0 s0
  defines "n \<equiv> nat \<lfloor>(1 - p) * real ps\<rfloor>"
  defines "pt1 \<equiv> fold (\<lambda>i. set_pattern i (- 1)) [1..<ps + 1] pt0"
  defines "ipt2 \<equiv> fold (\<lambda>(c::nat) (acc :: nat \<times> pattern_mem). case acc of (i, pt) \<Rightarrow> (i + 1, set_pattern i (- 1) pt))
                     [1..<n + 1] (ps + 1, pt1)"
  defines "a3 \<equiv> createSimilarRandomPattern ref (param_itemDistractorNoise P)
                     (ps + 1 + n) (ps + 1 + n + ps div 4) (snd ipt2, s0)"
  defines "a4 \<equiv> fold (shuffle_step ps (ps + 1)) (rev [ps + 1 + 1..<ps + 1 + ps + 1]) a3"
  shows "createOverlapingRandomPattern P ref ps p (pt0, s0) = a4"
    and "fst ipt2 = ps + 1 + n"
proof -
  show i2: "fst ipt2 = ps + 1 + n"
    unfolding ipt2_def prefix_fold(1) by simp
  have empty: "[ps + 1 + n + ps + 1..<ps + 1] = []" by simp
  show "createOverlapingRandomPattern P ref ps p (pt0, s0) = a4"
    unfolding createOverlapingRandomPattern_def Let_def prod.case
    unfolding n_def [symmetric] pt1_def [symmetric] ipt2_def [symmetric]
    unfolding case_prod_beta
    unfolding i2 a3_def [symmetric] prod.collapse a4_def [symmetric]
    unfolding empty by simp
qed


lemma createOverlapingRandomPattern_low:
  assumes "j \<le> ps"
  shows "fst (fst (createOverlapingRandomPattern P ref ps p (pt0, s0))) j =
     (if 1 \<le> j then - 1 else fst pt0 j)"
proof -
  define n where "n = nat \<lfloor>(1 - p) * real ps\<rfloor>"
  define pt1 where "pt1 = fold (\<lambda>i. set_pattern i (- 1)) [1..<ps + 1] pt0"
  define ipt2 where "ipt2 = fold (\<lambda>(c::nat) (acc :: nat \<times> pattern_mem). case acc of (i, pt) \<Rightarrow> (i + 1, set_pattern i (- 1) pt))
                     [1..<n + 1] (ps + 1, pt1)"
  define a3 where "a3 = createSimilarRandomPattern ref (param_itemDistractorNoise P)
                     (ps + 1 + n) (ps + 1 + n + ps div 4) (snd ipt2, s0)"
  define a4 where "a4 = fold (shuffle_step ps (ps + 1)) (rev [ps + 1 + 1..<ps + 1 + ps + 1]) a3"
  have res: "createOverlapingRandomPattern P ref ps p (pt0, s0) = a4"
    unfolding a4_def a3_def ipt2_def pt1_def n_def
    by (rule createOverlapingRandomPattern_stages(1))
  have 1: "fst pt1 j = (if 1 \<le> j then - 1 else fst pt0 j)"
    unfolding pt1_def fill_fold(1) using assms by auto
  have 2: "fst (snd ipt2) j = fst pt1 j"
    unfolding ipt2_def prefix_fold(2) using assms by simp
  have 3: "fst (fst a3) j = fst (snd ipt2) j"
    unfolding a3_def using assms by (intro createSimilarRandomPattern_frame(1)) simp
  have "fst (fst (fold (shuffle_step ps (ps + 1)) (rev [ps + 1 + 1..<ps + 1 + ps + 1]) (fst a3, snd a3))) j
      = fst (fst a3) j"
    using assms by (intro shuffle_fold_frame(1)) auto
  then have 4: "fst (fst a4) j = fst (fst a3) j"
    unfolding a4_def by simp
  show ?thesis unfolding res 4 3 2 1 ..
qed

lemma createOverlapingRandomPattern_touched:
  "ps + 1 \<in> set (snd (fst (createOverlapingRandomPattern P ref ps p (pt0, s0))))"
proof -
  define n where "n = nat \<lfloor>(1 - p) * real ps\<rfloor>"
  define pt1 where "pt1 = fold (\<lambda>i. set_pattern i (- 1)) [1..<ps + 1] pt0"
  define ipt2 where "ipt2 = fold (\<lambda>(c::nat) (acc :: nat \<times> pattern_mem). case acc of (i, pt) \<Rightarrow> (i + 1, set_pattern i (- 1) pt))
                     [1..<n + 1] (ps + 1, pt1)"
  define a3 where "a3 = createSimilarRandomPattern ref (param_itemDistractorNoise P)
                     (ps + 1 + n) (ps + 1 + n + ps div 4) (snd ipt2, s0)"
  define a4 where "a4 = fold (shuffle_step ps (ps + 1)) (rev [ps + 1 + 1..<ps + 1 + ps + 1]) a3"
  have res: "createOverlapingRandomPattern P ref ps p (pt0, s0) = a4"
    unfolding a4_def a3_def ipt2_def pt1_def n_def
    by (rule createOverlapingRandomPattern_stages(1))
  have 2: "set (snd (snd ipt2)) = {ps + 1..<ps + 1 + n} \<union> set (snd pt1)"
    unfolding ipt2_def prefix_fold(3) by simp
  have 3: "set (snd (fst a3)) = {ps + 1 + n..ps + 1 + n + ps div 4} \<union> set (snd (snd ipt2))"
    unfolding a3_def by (rule createSimilarRandomPattern_frame(2))
  have "ps + 1 \<in> set (snd (fst a3))"
    unfolding 3 2 by (cases "n = 0") auto
  moreover have "set (snd (fst a3)) \<subseteq>
      set (snd (fst (fold (shuffle_step ps (ps + 1)) (rev [ps + 1 + 1..<ps + 1 + ps + 1]) (fst a3, snd a3))))"
    by (intro shuffle_fold_frame(2)) auto
  ultimately show ?thesis
    unfolding res a4_def by auto
qed

text \<open>
  C3 (defect of the code).  The claim: the pattern produced has a (1-p) prefix of
  sentinels, then a span of patternSize/4 noisy copies of the reference, then sentinels,
  shuffled within the reference-sized window, so it is not entirely sentinel.  In the code
  the first loop runs over the whole pattern (the test on the reference is commented out),
  so the prefix, the noisy span and the shuffle all start at index patternSize + 1: every
  element 1..patternSize of the result is the sentinel -1, for every reference and every p.
\<close>

theorem createOverlapingRandomPattern_all_sentinel:
  "\<forall>j. 1 \<le> j \<and> j \<le> patternSize \<longrightarrow>
     fst (fst (createOverlapingRandomPattern P refPattern patternSize p ((pattern, touched), s))) j = - 1"
  by (simp add: createOverlapingRandomPattern_low)

theorem createOverlapingRandomPattern_all_sentinel_witness:
  "fst (fst (createOverlapingRandomPattern default_params (\<lambda>i. 1 / 2) 100 (4 / 10)
      (((\<lambda>i. 0), []), blank_state))) 50 = - 1"
  using createOverlapingRandomPattern_all_sentinel
    [of 100 default_params "\<lambda>i. 1 / 2" "4 / 10" "\<lambda>i. 0" "[]" blank_state]
  by simp

text \<open>
  C4 (defect of the code).  The claim: every read and write of the pattern stays within
  the indices 1..patternSize.  In the code the element patternSize + 1 (index 101 of a row
  of 101 floats, for patternSize = 100) is accessed in every call, whatever p and the
  reference are.
\<close>

theorem createOverlapingRandomPattern_out_of_row:
  "patternSize + 1 \<in>
     set (snd (fst (createOverlapingRandomPattern P refPattern patternSize p ((pattern, []), s))))"
  by (rule createOverlapingRandomPattern_touched)

section \<open>Decay, suppression and recall\<close>

lemma fold_row_update:
  fixes m :: "nat \<Rightarrow> nat \<Rightarrow> 'a"
  shows "fold (\<lambda>j m. if c j (m i j) then m(i := (m i)(j := g (m i j))) else m) [a..<b] m =
     (\<lambda>i' j. if i' = i \<and> a \<le> j \<and> j < b \<and> c j (m i j) then g (m i j) else m i' j)"
proof (induction b)
  case 0
  then show ?case by simp
next
  case (Suc b)
  show ?case
  proof (cases "a \<le> b")
    case False
    then show ?thesis by (auto simp: fun_eq_iff)
  next
    case True
    then show ?thesis
      unfolding upt_Suc_append [OF True] fold_append comp_apply Suc
      by (auto simp: fun_eq_iff less_Suc_eq)
  qed
qed

lemma decay_row_apply:
  "decay_row n factor i m i' j =
     (if i' = i \<and> 1 \<le> j \<and> j \<le> n then m i j * factor else m i' j)"
proof -
  have "decay_row n factor i m =
      (\<lambda>i' j. if i' = i \<and> 1 \<le> j \<and> j < n + 1 \<and> m i j \<noteq> 0 then m i j * factor else m i' j)"
    unfolding decay_row_def
    by (rule fold_row_update [where c = "\<lambda>j v. v \<noteq> 0" and g = "\<lambda>v. v * factor"])
  then show ?thesis by auto
qed

lemma decay_fold_apply:
  "fold (\<lambda>i m. if e = - 1 \<or> int i \<noteq> e then decay_row n factor i m else m) [a..<b] m i j =
     (if a \<le> i \<and> i < b \<and> (e = - 1 \<or> int i \<noteq> e) \<and> 1 \<le> j \<and> j \<le> n then m i j * factor else m i j)"
proof (induction b arbitrary: i j)
  case 0
  then show ?case by simp
next
  case (Suc b)
  show ?case
  proof (cases "a \<le> b")
    case False
    then show ?thesis by auto
  next
    case True
    define M where "M = fold (\<lambda>i m. if e = - 1 \<or> int i \<noteq> e then decay_row n factor i m else m) [a..<b] m"
    have Mb: "M b j = m b j"
      unfolding M_def Suc by simp
    have Mi: "M i j =
        (if a \<le> i \<and> i < b \<and> (e = - 1 \<or> int i \<noteq> e) \<and> 1 \<le> j \<and> j \<le> n then m i j * factor else m i j)"
      unfolding M_def Suc by simp
    have "fold (\<lambda>i m. if e = - 1 \<or> int i \<noteq> e then decay_row n factor i m else m) [a..<Suc b] m
        = (if e = - 1 \<or> int b \<noteq> e then decay_row n factor b M else M)"
      unfolding upt_Suc_append [OF True] fold_append comp_apply M_def by simp
    then show ?thesis
      using True Mb Mi by (auto simp: decay_row_apply)
  qed
qed

lemma decay_apply:
  "decay n m factor e i j =
     (if 1 \<le> i \<and> i \<le> maxItem \<and> (e = - 1 \<or> int i \<noteq> e) \<and> 1 \<le> j \<and> j \<le> n
      then m i j * factor else m i j)"
  unfolding decay_def decay_fold_apply by auto

lemma suppress_apply:
  "suppress P s b amax i j =
     (if i = b \<and> 1 \<le> j \<and> j \<le> nbPositionUnits s \<and> itemVectorsInWM s (cell b j) \<noteq> 0
      then itemPositionMatrix s i j - param_L P * amax else itemPositionMatrix s i j)"
proof -
  have "suppress P s b amax =
      (\<lambda>i' j. if i' = b \<and> 1 \<le> j \<and> j < nbPositionUnits s + 1 \<and> itemVectorsInWM s (cell b j) \<noteq> 0
         then itemPositionMatrix s b j - param_L P * amax else itemPositionMatrix s i' j)"
    unfolding suppress_def
    by (rule fold_row_update [where c = "\<lambda>j v. itemVectorsInWM s (cell b j) \<noteq> 0"
          and g = "\<lambda>v. v - param_L P * amax"])
  then show ?thesis by auto
qed

lemma retrieve_frame:
  "\<exists>t n. snd (retrieve P pos status best s) = s\<lparr>var_tr := t, rand_calls := n\<rparr>"
proof -
  obtain t n where "retrieval_time P status s = s\<lparr>var_tr := t, rand_calls := n\<rparr>"
    using retrieval_time_frame by blast
  then have "snd (retrieve P pos status best s) =
      s\<lparr>var_tr := t, rand_calls := n + 2 * (maxMemoranda + distractorNumber s)\<rparr>"
    by (simp add: retrieve_unfold)
  then show ?thesis by blast
qed

lemma recall_position_unfold:
  fixes P position best recalled s
  defines "r \<equiv> fst (retrieve P position 0 best s)"
  defines "s1 \<equiv> snd (retrieve P position 0 best s)"
  defines "dur \<equiv> (if retrievalDuration r > 5 then 5 else retrievalDuration r)"
  defines "D \<equiv> decay (nbPositionUnits s) (itemPositionMatrix s) (exp (- param_D P * dur)) (- 1)"
  shows "recall_position P position (best, recalled, s) =
     (bestWMItem r,
      recalled[position - 1 := (if activationMax r > param_theta P then codeItem_of (retrievedItem r) else CHR ''.'')],
      s1\<lparr>itemPositionMatrix :=
            (if activationMax r > param_theta P
             then suppress P (s\<lparr>itemPositionMatrix := D\<rparr>) (retrievedItem r) (activationMax r) else D),
          globalTime := globalTime s + dur\<rparr>)"
proof -
  obtain t n where s1: "s1 = s\<lparr>var_tr := t, rand_calls := n\<rparr>"
    using retrieve_frame [of P position 0 best s] unfolding s1_def by blast
  have sup: "suppress P (s1\<lparr>itemPositionMatrix := D\<rparr>) = suppress P (s\<lparr>itemPositionMatrix := D\<rparr>)"
    by (rule ext)+ (simp add: suppress_apply s1)
  have rs: "retrieve P position 0 best s = (r, s1)"
    by (simp add: r_def s1_def)
  have D: "decay (nbPositionUnits s1) (itemPositionMatrix s1) (exp (- param_D P * dur)) (- 1) = D"
    by (simp add: D_def s1)
  show ?thesis
    unfolding recall_position_def prod.case rs Let_def dur_def [symmetric] D sup
    by (simp add: s1)
qed

lemma recall_position_buffer:
  "fst (snd (recall_position P position (best, recalled, s))) =
     recalled[position - 1 :=
       (if activationMax (fst (retrieve P position 0 best s)) > param_theta P
        then codeItem_of (retrievedItem (fst (retrieve P position 0 best s))) else CHR ''.'')]"
  by (simp add: recall_position_unfold)

lemma recall_fold_buffer:
  assumes "1 \<le> a"
  shows "length (fst (snd (fold (recall_position P) [a..<b] acc))) = length (fst (snd acc)) \<and>
     (\<forall>k. \<not> (a \<le> k + 1 \<and> k + 1 < b) \<longrightarrow>
        fst (snd (fold (recall_position P) [a..<b] acc)) ! k = fst (snd acc) ! k)"
proof (induction b)
  case 0
  then show ?case by simp
next
  case (Suc b)
  show ?case
  proof (cases "a \<le> b")
    case False
    then show ?thesis by simp
  next
    case True
    define mid where "mid = fold (recall_position P) [a..<b] acc"
    obtain best recalled s where m: "mid = (best, recalled, s)" by (cases mid) auto
    have len: "length recalled = length (fst (snd acc))"
      and same: "\<And>k. \<not> (a \<le> k + 1 \<and> k + 1 < b) \<Longrightarrow> recalled ! k = fst (snd acc) ! k"
      using Suc unfolding mid_def [symmetric] m by simp_all
    have st: "fold (recall_position P) [a..<Suc b] acc = recall_position P b (best, recalled, s)"
      unfolding upt_Suc_append [OF True] fold_append comp_apply mid_def [symmetric] m by simp
    show ?thesis
      unfolding st recall_position_buffer using len same True assms
      by (auto simp: nth_list_update)
  qed
qed

text \<open>
  C5.  For every position and every mode (status), when the maximal activation is
  strictly below theta, retrieve returns the item 0 as an ordinary value; the pass of the
  loop of recall for that position then writes the placeholder '.' into the recalled
  buffer, and the finished recall still holds it there.
\<close>

theorem retrieval_below_threshold_yields_placeholder:
  "(activationMax (fst (retrieve P pos status best s)) < param_theta P \<longrightarrow>
      retrievedItem (fst (retrieve P pos status best s)) = 0) \<and>
   (activationMax (fst (retrieve P position 0 best s)) < param_theta P \<and>
    1 \<le> position \<and> position \<le> length recalled \<longrightarrow>
      fst (snd (recall_position P position (best, recalled, s))) ! (position - 1) = CHR ''.'') \<and>
   (let before = fold (recall_position P) [1..<position] (stack_junk s, recalled, s)
    in activationMax (fst (retrieve P position 0 (fst before) (snd (snd before)))) < param_theta P \<and>
       1 \<le> position \<and> position \<le> lastPosition \<and> lastPosition < length recalled \<longrightarrow>
         fst (recall P lastPosition recalled s) ! (position - 1) = CHR ''.'')"
proof (intro conjI)
  show "activationMax (fst (retrieve P pos status best s)) < param_theta P \<longrightarrow>
      retrievedItem (fst (retrieve P pos status best s)) = 0"
    using retrieve_item_props(1) by blast
  show "activationMax (fst (retrieve P position 0 best s)) < param_theta P \<and>
    1 \<le> position \<and> position \<le> length recalled \<longrightarrow>
      fst (snd (recall_position P position (best, recalled, s))) ! (position - 1) = CHR ''.''"
    by (auto simp: recall_position_buffer)
  show "let before = fold (recall_position P) [1..<position] (stack_junk s, recalled, s)
    in activationMax (fst (retrieve P position 0 (fst before) (snd (snd before)))) < param_theta P \<and>
       1 \<le> position \<and> position \<le> lastPosition \<and> lastPosition < length recalled \<longrightarrow>
         fst (recall P lastPosition recalled s) ! (position - 1) = CHR ''.''"
  proof -
    define before where "before = fold (recall_position P) [1..<position] (stack_junk s, recalled, s)"
    have "fst (recall P lastPosition recalled s) ! (position - 1) = CHR ''.''"
      if low: "activationMax (fst (retrieve P position 0 (fst before) (snd (snd before)))) < param_theta P"
        and p: "1 \<le> position" "position \<le> lastPosition" "lastPosition < length recalled"
    proof -
      obtain b0 r0 s0 where bf: "before = (b0, r0, s0)" by (cases before) auto
      have len0: "length r0 = length recalled"
        using recall_fold_buffer [of 1 P position "(stack_junk s, recalled, s)"]
        unfolding before_def [symmetric] bf by simp
      define after where "after = recall_position P position before"
      have at: "fst (snd after) ! (position - 1) = CHR ''.''"
        unfolding after_def bf recall_position_buffer using low p len0
        by (simp add: bf)
      have "[1..<position + (lastPosition + 1 - position)] =
          [1..<position] @ [position..<position + (lastPosition + 1 - position)]"
        using p by (intro upt_add_eq_append) simp
      moreover have "position + (lastPosition + 1 - position) = lastPosition + 1"
        using p by simp
      moreover have "[position..<lastPosition + 1] = position # [position + 1..<lastPosition + 1]"
        using p by (simp add: upt_conv_Cons del: upt_Suc)
      ultimately have split:
        "[1..<lastPosition + 1] = [1..<position] @ position # [position + 1..<lastPosition + 1]"
        by (simp del: upt_Suc)
      have whole: "fold (recall_position P) [1..<lastPosition + 1] (stack_junk s, recalled, s) =
          fold (recall_position P) [position + 1..<lastPosition + 1] after"
        unfolding split fold_append comp_apply fold_Cons before_def [symmetric] after_def ..
      have keep: "fst (snd (fold (recall_position P) [position + 1..<lastPosition + 1] after)) ! (position - 1)
          = fst (snd after) ! (position - 1)"
        using recall_fold_buffer [of "position + 1" P "lastPosition + 1" after] p by simp
      obtain b1 r1 s1 where fin: "fold (recall_position P) [position + 1..<lastPosition + 1] after = (b1, r1, s1)"
        by (cases "fold (recall_position P) [position + 1..<lastPosition + 1] after") auto
      have "fst (recall P lastPosition recalled s) = r1[lastPosition := CHR 0x00]"
        unfolding recall_def whole fin by simp
      moreover have "r1 ! (position - 1) = CHR ''.''"
        using keep at unfolding fin by simp
      ultimately show ?thesis using p by simp
    qed
    then show ?thesis unfolding before_def Let_def by blast
  qed
qed


lemma blank_state_activationMax:
  assumes "0 \<le> param_sigma P" and "param_sigma P < 1"
  shows "activationMax (fst (retrieve P pos status best blank_state)) \<le> 0"
proof -
  let ?r = "fst (retrieve P pos status best blank_state)"
  obtain t n where s1: "retrieval_time P status blank_state = blank_state\<lparr>var_tr := t, rand_calls := n\<rparr>"
    using retrieval_time_frame by blast
  have nf: "noise_factor P = 0"
    using assms by (rule noise_factor_zero)
  have act0: "fst (item_activation P pos k ((retrieval_time P status blank_state)\<lparr>rand_calls := m\<rparr>)) = 0"
    for k m
    unfolding s1
    by (simp add: item_activation_def split_beta nf position_activation_sum blank_state_def)
  show ?thesis
  proof (cases "- 99999 < activationMax ?r")
    case True
    then show ?thesis
      using retrieve_activation_props(3) [where P = P and pos = pos and status = status
          and ?best0.0 = best and s = blank_state]
      unfolding act0 by simp
  next
    case False
    then show ?thesis by simp
  qed
qed

theorem retrieval_below_threshold_yields_placeholder_witness:
  "retrievedItem (fst (retrieve default_params 1 0 0 blank_state)) = 0 \<and>
   fst (snd (recall_position default_params 1 (0, replicate 101 (CHR ''?''), blank_state))) ! 0 = CHR ''.''"
proof -
  have "activationMax (fst (retrieve default_params 1 0 0 blank_state)) \<le> 0"
    by (rule blank_state_activationMax) (simp_all add: default_params_def)
  then have low: "activationMax (fst (retrieve default_params 1 0 0 blank_state)) < param_theta default_params"
    by (simp add: default_params_def)
  show ?thesis
    using retrieval_below_threshold_yields_placeholder [where P = default_params and pos = 1
        and status = 0 and best = 0 and s = blank_state and position = 1
        and recalled = "replicate 101 (CHR ''?'')" and lastPosition = 1] low
    by simp
qed

lemma recall_position_matrix:
  fixes P position best recalled s
  defines "r \<equiv> fst (retrieve P position 0 best s)"
  defines "dur \<equiv> (if retrievalDuration r > 5 then 5 else retrievalDuration r)"
  defines "D \<equiv> decay (nbPositionUnits s) (itemPositionMatrix s) (exp (- param_D P * dur)) (- 1)"
  shows "itemPositionMatrix (snd (snd (recall_position P position (best, recalled, s)))) i j =
     (if activationMax r > param_theta P \<and> i = retrievedItem r \<and> 1 \<le> j \<and> j \<le> nbPositionUnits s \<and>
         itemVectorsInWM s (cell (retrievedItem r) j) \<noteq> 0
      then D i j - param_L P * activationMax r else D i j)"
  unfolding recall_position_unfold r_def dur_def D_def
  by (simp add: suppress_apply)

text \<open>
  C2 (corrected).  The claim has the suppression act on the best WM item, the item with
  maximal activation.  The code subtracts L * activationMax from the associations of the
  item that retrieve returned (the LTM item closest to the best WM item's vector), at the
  position features j in 1..nbPositionUnits where that item's own WM vector is non-zero;
  every other association, the best WM item's included when it is a different item, is only
  decayed.
\<close>

theorem recall_suppresses_retrieved_item:
  fixes P position best recalled s
  defines "r \<equiv> fst (retrieve P position 0 best s)"
  defines "dur \<equiv> (if retrievalDuration r > 5 then 5 else retrievalDuration r)"
  defines "D \<equiv> decay (nbPositionUnits s) (itemPositionMatrix s) (exp (- param_D P * dur)) (- 1)"
  assumes "activationMax r > param_theta P"
  shows "itemPositionMatrix (snd (snd (recall_position P position (best, recalled, s)))) i j =
     (if i = retrievedItem r \<and> 1 \<le> j \<and> j \<le> nbPositionUnits s \<and>
         itemVectorsInWM s (cell (retrievedItem r) j) \<noteq> 0
      then D i j - param_L P * activationMax r else D i j)"
  using assms(4) unfolding recall_position_matrix r_def dur_def D_def by simp

lemma crossed_state_retrieve:
  fixes best :: nat
  defines "r \<equiv> fst (retrieve default_params 1 0 best crossed_state)"
  shows "activationMax r = 1 / 9" and "bestWMItem r = 1" and "retrievedItem r = 2"
proof -
  let ?P = default_params
  obtain t n where s1: "retrieval_time ?P 0 crossed_state = crossed_state\<lparr>var_tr := t, rand_calls := n\<rparr>"
    using retrieval_time_frame by blast
  have nf: "noise_factor ?P = 0"
    by (rule noise_factor_zero) (simp_all add: default_params_def)
  have eq1: "(\<Sum>i = (1::nat)..54. real_of_int (if i mod 6 = 1 then 1 else 0) * (if k = 1 \<and> i = 1 then 1 / 9 else 0))
      = (\<Sum>i = 1..54. if i = (1::nat) then (if k = 1 then 1 / 9 else 0) else (0::real))" for k :: nat
    by (rule sum.cong) auto
  have delta: "(\<Sum>i = (1::nat)..54. if i = 1 then c else (0::real)) = c" for c
    using sum.delta [of "{1..54::nat}" 1 "\<lambda>_. c"] by simp
  have sm: "(\<Sum>i = (1::nat)..54. real_of_int (if i mod 6 = 1 then 1 else 0) * (if k = 1 \<and> i = 1 then 1 / 9 else 0))
      = (if k = 1 then 1 / 9 else (0::real))" for k :: nat
    unfolding eq1 delta ..
  have pa: "position_activation (crossed_state\<lparr>var_tr := t, rand_calls := m\<rparr>) 1 k =
      (if k = 1 then 1 / 9 else 0)" for k m
  proof -
    have "position_activation (crossed_state\<lparr>var_tr := t, rand_calls := m\<rparr>) 1 k =
        (\<Sum>i = (1::nat)..54. real_of_int (if i mod 6 = 1 then 1 else 0) * (if k = 1 \<and> i = 1 then 1 / 9 else 0))"
      by (simp add: position_activation_sum crossed_state_def blank_state_def)
    then show ?thesis unfolding sm .
  qed
  have act: "fst (item_activation ?P 1 k ((retrieval_time ?P 0 crossed_state)\<lparr>rand_calls := m\<rparr>)) =
      (if k = 1 then 1 / 9 else 0)" for k m
    unfolding s1 using pa [of m k]
    by (simp add: item_activation_def split_beta nf)
  have live: "maxMemoranda + distractorNumber crossed_state = 10"
    by (simp add: maxMemoranda_def crossed_state_def blank_state_def)
  have ge: "1 / 9 \<le> activationMax r"
    using retrieve_activation_props(2) [where P = ?P and pos = 1 and status = 0
        and ?best0.0 = best and s = crossed_state and k = 1]
    unfolding act r_def live by simp
  then have pos: "- 99999 < activationMax r" by simp
  have best: "1 \<le> bestWMItem r \<and> bestWMItem r \<le> 10 \<and>
      (if bestWMItem r = 1 then 1 / 9 else 0) = activationMax r"
    using retrieve_activation_props(3) [where P = ?P and pos = 1 and status = 0
        and ?best0.0 = best and s = crossed_state] pos
    unfolding act r_def live by simp
  show b1: "bestWMItem r = 1"
    using best ge by (cases "bestWMItem r = 1") auto
  show amax: "activationMax r = 1 / 9"
    using best b1 by simp
  have ltm: "itemVectorsInLTM crossed_state (cell k j) = (if k = 2 then 1 / 2 else 0)"
    if "1 \<le> j" "j \<le> 100" for k j
    using that by (auto simp: crossed_state_def blank_state_def cell_def nbItemUnits_def)
  have "(\<Sum>j = 1..100. (itemVectorsInWM crossed_state (cell b j) - itemVectorsInLTM crossed_state (cell k j))\<^sup>2)
      = (\<Sum>j = (1::nat)..100. (1 / 2 - (if k = 2 then 1 / 2 else 0))\<^sup>2)" for b k :: nat
    by (rule sum.cong) (simp_all add: ltm, simp add: crossed_state_def blank_state_def)
  then have d: "rmse (row (itemVectorsInWM crossed_state) b) (row (itemVectorsInLTM crossed_state) k) nbItemUnits
      = (if k = 2 then 0 else 1 / 2)" for b k :: nat
    by (simp add: rmse_sum row_def nbItemUnits_def power2_eq_square real_sqrt_divide)
  have ok: "\<not> activationMax r < param_theta ?P"
    unfolding amax by (simp add: default_params_def)
  have "\<forall>j::nat. 1 \<le> j \<and> j \<le> 10 \<longrightarrow>
      (if retrievedItem r = 2 then 0 else 1 / 2) \<le> (if j = 2 then 0 else 1 / (2::real))"
    using retrieve_item_props(2) [where P = ?P and pos = 1 and status = 0
        and ?best0.0 = best and s = crossed_state and k = 2] ok
    unfolding d r_def live by simp
  then have "(if retrievedItem r = 2 then 0 else 1 / 2) \<le> (0::real)"
    by (auto dest!: spec [of _ "2::nat"] split: if_splits)
  then show "retrievedItem r = 2"
    by (simp split: if_splits)
qed


theorem recall_suppresses_retrieved_item_witness:
  "itemPositionMatrix
     (snd (snd (recall_position default_params 1 (0, replicate 101 (CHR ''?''), crossed_state)))) 2 1
   = - (1 / 81)"
proof -
  have ok: "param_theta default_params
      < activationMax (fst (retrieve default_params 1 0 0 crossed_state))"
    unfolding crossed_state_retrieve by (simp add: default_params_def)
  have n: "nbPositionUnits crossed_state = 54"
    by (simp add: crossed_state_def blank_state_def)
  have wm: "itemVectorsInWM crossed_state a = 1 / 2" for a
    by (simp add: crossed_state_def blank_state_def)
  have m: "itemPositionMatrix crossed_state 2 1 = 0"
    by (simp add: crossed_state_def blank_state_def)
  show ?thesis
    using recall_suppresses_retrieved_item [OF ok, of "replicate 101 (CHR ''?'')" 2 1]
    unfolding crossed_state_retrieve n wm decay_apply m
    by (simp add: default_params_def)
qed

theorem recall_suppression_counterexample:
  "let r = fst (retrieve default_params 1 0 0 crossed_state);
       dur = (if retrievalDuration r > 5 then 5 else retrievalDuration r);
       D = decay 54 (itemPositionMatrix crossed_state) (exp (- param_D default_params * dur)) (- 1);
       after = snd (snd (recall_position default_params 1 (0, replicate 101 (CHR ''?''), crossed_state)))
   in activationMax r > param_theta default_params \<and> bestWMItem r = 1 \<and> retrievedItem r = 2 \<and>
      itemVectorsInWM crossed_state (cell 1 1) \<noteq> 0 \<and>
      param_L default_params * activationMax r = 1 / 81 \<and>
      itemPositionMatrix after 1 1 = D 1 1 \<and>
      itemPositionMatrix after 2 1 = D 2 1 - 1 / 81"
proof -
  have n: "nbPositionUnits crossed_state = 54"
    by (simp add: crossed_state_def blank_state_def)
  have wm: "itemVectorsInWM crossed_state a = 1 / 2" for a
    by (simp add: crossed_state_def blank_state_def)
  have th: "param_theta default_params < 1 / 9" "param_L default_params = 1 / 9"
    by (simp_all add: default_params_def)
  show ?thesis
    unfolding Let_def recall_position_matrix crossed_state_retrieve n wm using th
    by simp
qed

section \<open>Position representations\<close>

lemma set_fold_apply:
  fixes pv :: "nat \<Rightarrow> nat \<Rightarrow> 'a"
  shows "fold (\<lambda>j pv. pv(p := (pv p)(j := v))) [a..<b] pv =
     (\<lambda>q j. if q = p \<and> a \<le> j \<and> j < b then v else pv q j)"
proof (induction b)
  case 0
  then show ?case by simp
next
  case (Suc b)
  show ?case
  proof (cases "a \<le> b")
    case False
    then show ?thesis by (auto simp: fun_eq_iff)
  next
    case True
    then show ?thesis
      unfolding upt_Suc_append [OF True] fold_append comp_apply Suc
      by (auto simp: fun_eq_iff less_Suc_eq)
  qed
qed

lemma clear_block_apply:
  "clear_block p i pv q j =
     (if q = p \<and> i * sizeOfPositionBlocks + 1 \<le> j \<and> j \<le> (i + 1) * sizeOfPositionBlocks
      then 0 else pv q j)"
  unfolding clear_block_def set_fold_apply by auto

lemma copy_fold_apply:
  fixes pv :: "nat \<Rightarrow> nat \<Rightarrow> int"
  shows "fold (\<lambda>j pv. pv(p := (pv p)(j := pv q0 j))) [a..<b] pv =
     (\<lambda>q j. if q = p \<and> a \<le> j \<and> j < b then pv q0 j else pv q j)"
proof (induction b)
  case 0
  then show ?case by simp
next
  case (Suc b)
  show ?case
  proof (cases "a \<le> b")
    case False
    then show ?thesis by (auto simp: fun_eq_iff)
  next
    case True
    then show ?thesis
      unfolding upt_Suc_append [OF True] fold_append comp_apply Suc
      by (auto simp: fun_eq_iff less_Suc_eq)
  qed
qed

lemma copy_block_apply:
  "copy_block p i pv q j =
     (if q = p \<and> i * sizeOfPositionBlocks + 1 \<le> j \<and> j \<le> (i + 1) * sizeOfPositionBlocks
      then pv (p - 1) j else pv q j)"
  unfolding copy_block_def copy_fold_apply by auto

lemma position_block_apply:
  "fst (position_block P p i (pv, s)) q j =
     (if q = p \<and> i * sizeOfPositionBlocks + 1 \<le> j \<and> j \<le> (i + 1) * sizeOfPositionBlocks
      then (if real (rand_seq s (rand_calls s) mod 100) > param_P P * 100
            then (if j = i * sizeOfPositionBlocks + (1 + rand_seq s (rand_calls s + 1) mod sizeOfPositionBlocks)
                  then 1 else 0)
            else pv (p - 1) j)
      else pv q j)"
proof (cases "real (rand_seq s (rand_calls s) mod 100) > param_P P * 100")
  case True
  have in_block: "i * sizeOfPositionBlocks + 1 \<le> i * sizeOfPositionBlocks + (1 + r mod sizeOfPositionBlocks) \<and>
      i * sizeOfPositionBlocks + (1 + r mod sizeOfPositionBlocks) \<le> (i + 1) * sizeOfPositionBlocks" for r :: nat
  proof -
    have "r mod sizeOfPositionBlocks < sizeOfPositionBlocks"
      by (simp add: sizeOfPositionBlocks_def)
    then show ?thesis by simp
  qed
  have "fst (position_block P p i (pv, s)) =
      (clear_block p i pv)(p := (clear_block p i pv p)
        (i * sizeOfPositionBlocks + (1 + rand_seq s (rand_calls s + 1) mod sizeOfPositionBlocks) := 1))"
    using True by (simp add: position_block_def rand_def Let_def)
  then show ?thesis
    using True in_block [of "rand_seq s (rand_calls s + 1)"]
    by (auto simp: clear_block_apply)
next
  case False
  have "fst (position_block P p i (pv, s)) = copy_block p i pv"
    using False by (simp add: position_block_def rand_def Let_def)
  then show ?thesis
    using False by (simp add: copy_block_apply)
qed

lemma position_block_calls:
  "rand_calls (snd (position_block P p i (pv, s))) =
     (if real (rand_seq s (rand_calls s) mod 100) > param_P P * 100
      then rand_calls s + 2 else rand_calls s + 1)"
  by (simp add: position_block_def rand_def Let_def)

lemma first_block_apply:
  "fst (first_block i (pv, s)) q j =
     (if q = 1 \<and> j = i * sizeOfPositionBlocks + (1 + rand_seq s (rand_calls s) mod sizeOfPositionBlocks)
      then 1 else pv q j)"
  by (simp add: first_block_def rand_def Let_def)

lemma one_hot_block_cong:
  assumes "\<And>j. 1 \<le> j \<Longrightarrow> j \<le> sizeOfPositionBlocks \<Longrightarrow>
      pv' p' (i * sizeOfPositionBlocks + j) = pv p (i * sizeOfPositionBlocks + j)"
  shows "one_hot_block pv' p' i = one_hot_block pv p i"
  unfolding one_hot_block_def using assms by simp

lemma one_hot_blockI:
  assumes "1 \<le> k" "k \<le> sizeOfPositionBlocks"
    and "\<And>j. 1 \<le> j \<Longrightarrow> j \<le> sizeOfPositionBlocks \<Longrightarrow>
      pv p (i * sizeOfPositionBlocks + j) = (if j = k then 1 else 0)"
  shows "one_hot_block pv p i"
  unfolding one_hot_block_def using assms by (intro bexI [of _ k]) auto

lemma position_block_one_hot:
  assumes "one_hot_block pv (p - 1) i"
  shows "one_hot_block (fst (position_block P p i (pv, s))) p i"
proof (cases "real (rand_seq s (rand_calls s) mod 100) > param_P P * 100")
  case True
  show ?thesis
  proof (rule one_hot_blockI [where k = "1 + rand_seq s (rand_calls s + 1) mod sizeOfPositionBlocks"])
    show "1 \<le> 1 + rand_seq s (rand_calls s + 1) mod sizeOfPositionBlocks" by simp
    show "1 + rand_seq s (rand_calls s + 1) mod sizeOfPositionBlocks \<le> sizeOfPositionBlocks"
      by (simp add: sizeOfPositionBlocks_def Suc_le_eq)
    show "fst (position_block P p i (pv, s)) p (i * sizeOfPositionBlocks + j) =
        (if j = 1 + rand_seq s (rand_calls s + 1) mod sizeOfPositionBlocks then 1 else 0)"
      if "1 \<le> j" "j \<le> sizeOfPositionBlocks" for j
      using that True by (simp add: position_block_apply)
  qed
next
  case False
  have "one_hot_block (fst (position_block P p i (pv, s))) p i = one_hot_block pv (p - 1) i"
    by (rule one_hot_block_cong) (use False in \<open>simp add: position_block_apply\<close>)
  then show ?thesis using assms by simp
qed

lemma position_block_other:
  assumes "q \<noteq> p \<or> i' \<noteq> i"
  shows "one_hot_block (fst (position_block P p i (pv, s))) q i' = one_hot_block pv q i'"
proof (rule one_hot_block_cong)
  fix j assume j: "1 \<le> j" "j \<le> sizeOfPositionBlocks"
  have "\<not> (q = p \<and> i * sizeOfPositionBlocks + 1 \<le> i' * sizeOfPositionBlocks + j \<and>
      i' * sizeOfPositionBlocks + j \<le> (i + 1) * sizeOfPositionBlocks)"
  proof
    assume a: "q = p \<and> i * sizeOfPositionBlocks + 1 \<le> i' * sizeOfPositionBlocks + j \<and>
      i' * sizeOfPositionBlocks + j \<le> (i + 1) * sizeOfPositionBlocks"
    then have "i' = i" using j unfolding sizeOfPositionBlocks_def by auto
    then show False using a assms by simp
  qed
  then show "fst (position_block P p i (pv, s)) q (i' * sizeOfPositionBlocks + j) =
      pv q (i' * sizeOfPositionBlocks + j)"
    unfolding position_block_apply by (simp only: if_False)
qed

lemma first_row_one_hot:
  assumes zero: "\<And>j. 1 \<le> j \<Longrightarrow> j \<le> nbUnitBlocks * sizeOfPositionBlocks \<Longrightarrow> pv 1 j = 0"
    and b: "b \<le> nbUnitBlocks"
  shows "(\<forall>i<b. one_hot_block (fst (fold first_block [0..<b] (pv, s))) 1 i) \<and>
     (\<forall>j. b * sizeOfPositionBlocks + 1 \<le> j \<and> j \<le> nbUnitBlocks * sizeOfPositionBlocks \<longrightarrow>
        fst (fold first_block [0..<b] (pv, s)) 1 j = 0)"
  using b
proof (induction b)
  case 0
  then show ?case using zero by simp
next
  case (Suc b)
  obtain pv' s' where acc: "fold first_block [0..<b] (pv, s) = (pv', s')"
    by (cases "fold first_block [0..<b] (pv, s)")
  have hot: "\<And>i. i < b \<Longrightarrow> one_hot_block pv' 1 i"
    and rest: "\<And>j. b * sizeOfPositionBlocks + 1 \<le> j \<Longrightarrow> j \<le> nbUnitBlocks * sizeOfPositionBlocks \<Longrightarrow> pv' 1 j = 0"
    using Suc unfolding acc by simp_all
  have st: "fold first_block [0..<Suc b] (pv, s) = first_block b (pv', s')"
    using acc by simp
  define k where "k = 1 + rand_seq s' (rand_calls s') mod sizeOfPositionBlocks"
  have k: "1 \<le> k" "k \<le> sizeOfPositionBlocks"
    unfolding k_def by (simp_all add: sizeOfPositionBlocks_def Suc_le_eq)
  have app: "fst (first_block b (pv', s')) q j =
      (if q = 1 \<and> j = b * sizeOfPositionBlocks + k then 1 else pv' q j)" for q j
    unfolding k_def by (rule first_block_apply)
  have le: "(b + 1) * sizeOfPositionBlocks \<le> nbUnitBlocks * sizeOfPositionBlocks"
    using Suc.prems by (intro mult_le_mono1) simp
  have new: "one_hot_block (fst (first_block b (pv', s'))) 1 b"
  proof (rule one_hot_blockI [OF k])
    fix j assume j: "1 \<le> j" "j \<le> sizeOfPositionBlocks"
    have "pv' 1 (b * sizeOfPositionBlocks + j) = 0"
      using j le by (intro rest) auto
    then show "fst (first_block b (pv', s')) 1 (b * sizeOfPositionBlocks + j) = (if j = k then 1 else 0)"
      unfolding app by simp
  qed
  have old: "one_hot_block (fst (first_block b (pv', s'))) 1 i" if "i < b" for i
  proof -
    have "one_hot_block (fst (first_block b (pv', s'))) 1 i = one_hot_block pv' 1 i"
    proof (rule one_hot_block_cong)
      fix j assume j: "1 \<le> j" "j \<le> sizeOfPositionBlocks"
      have "(i + 1) * sizeOfPositionBlocks \<le> b * sizeOfPositionBlocks"
        using that by (intro mult_le_mono1) simp
      then have "i * sizeOfPositionBlocks + j \<noteq> b * sizeOfPositionBlocks + k"
        using j k by simp
      then show "fst (first_block b (pv', s')) 1 (i * sizeOfPositionBlocks + j) =
          pv' 1 (i * sizeOfPositionBlocks + j)"
        unfolding app by simp
    qed
    then show ?thesis using hot that by simp
  qed
  have zero': "fst (first_block b (pv', s')) 1 j = 0"
    if "Suc b * sizeOfPositionBlocks + 1 \<le> j" "j \<le> nbUnitBlocks * sizeOfPositionBlocks" for j
  proof -
    have "j \<noteq> b * sizeOfPositionBlocks + k" using that k by simp
    moreover have "pv' 1 j = 0" using that by (intro rest) auto
    ultimately show ?thesis unfolding app by simp
  qed
  show ?case
    unfolding st using new old zero' by (auto simp: less_Suc_eq)
qed

lemma row_fold_one_hot:
  assumes p: "2 \<le> p"
    and prev: "\<And>q i. 1 \<le> q \<Longrightarrow> q < p \<Longrightarrow> i < nbUnitBlocks \<Longrightarrow> one_hot_block pv q i"
    and b: "b \<le> nbUnitBlocks"
  shows "(\<forall>q i. 1 \<le> q \<and> q < p \<and> i < nbUnitBlocks \<longrightarrow>
            one_hot_block (fst (fold (position_block P p) [0..<b] (pv, s))) q i) \<and>
         (\<forall>i<b. one_hot_block (fst (fold (position_block P p) [0..<b] (pv, s))) p i)"
  using b
proof (induction b)
  case 0
  then show ?case using prev by simp
next
  case (Suc b)
  obtain pv' s' where acc: "fold (position_block P p) [0..<b] (pv, s) = (pv', s')"
    by (cases "fold (position_block P p) [0..<b] (pv, s)")
  have prev': "\<And>q i. 1 \<le> q \<Longrightarrow> q < p \<Longrightarrow> i < nbUnitBlocks \<Longrightarrow> one_hot_block pv' q i"
    and cur: "\<And>i. i < b \<Longrightarrow> one_hot_block pv' p i"
    using Suc unfolding acc by simp_all
  have st: "fold (position_block P p) [0..<Suc b] (pv, s) = position_block P p b (pv', s')"
    using acc by simp
  have "one_hot_block pv' (p - 1) b"
    using p Suc.prems by (intro prev') auto
  then have new: "one_hot_block (fst (position_block P p b (pv', s'))) p b"
    by (rule position_block_one_hot)
  have other: "one_hot_block (fst (position_block P p b (pv', s'))) q i = one_hot_block pv' q i"
    if "q \<noteq> p \<or> i \<noteq> b" for q i
    using that by (rule position_block_other)
  show ?case
    unfolding st using new other prev' cur by (auto simp: less_Suc_eq)
qed

lemma rows_fold_one_hot:
  assumes first: "\<And>i. i < nbUnitBlocks \<Longrightarrow> one_hot_block (fst acc) 1 i"
  shows "\<forall>q i. 1 \<le> q \<and> q < max 2 n \<and> i < nbUnitBlocks \<longrightarrow>
     one_hot_block (fst (fold (\<lambda>p. fold (position_block P p) [0..<nbUnitBlocks]) [2..<n] acc)) q i"
proof (induction n)
  case 0
  then show ?case using first by (auto simp: less_Suc_eq numeral_2_eq_2)
next
  case (Suc n)
  show ?case
  proof (cases "2 \<le> n")
    case False
    then have "[2..<Suc n] = []" by simp
    moreover have "max 2 (Suc n) = 2" using False by simp
    ultimately show ?thesis using first by (auto simp: less_Suc_eq numeral_2_eq_2)
  next
    case True
    define mid where "mid = fold (\<lambda>p. fold (position_block P p) [0..<nbUnitBlocks]) [2..<n] acc"
    have st: "fold (\<lambda>p. fold (position_block P p) [0..<nbUnitBlocks]) [2..<Suc n] acc =
        fold (position_block P n) [0..<nbUnitBlocks] (fst mid, snd mid)"
      unfolding upt_Suc_append [OF True] fold_append comp_apply mid_def by simp
    have prev: "\<And>q i. 1 \<le> q \<Longrightarrow> q < n \<Longrightarrow> i < nbUnitBlocks \<Longrightarrow> one_hot_block (fst mid) q i"
      using Suc True unfolding mid_def by simp
    have mx: "max 2 (Suc n) = Suc n" using True by simp
    show ?thesis
      unfolding st mx
      using row_fold_one_hot [OF True prev order_refl, where P = P and s = "snd mid"]
      by (auto simp: less_Suc_eq)
  qed
qed

lemma generatePositionRepresentations_one_hot:
  assumes n: "nbPositionUnits s = nbUnitBlocks * sizeOfPositionBlocks"
    and q: "1 \<le> q" "q \<le> maxPosition" and i: "i < nbUnitBlocks"
  shows "one_hot_block (positionVectors (generatePositionRepresentations P s)) q i"
proof -
  define pv0 where "pv0 = fold (\<lambda>i pv. pv(1 := (pv 1)(i := 0))) [1..<nbPositionUnits s + 1] (positionVectors s)"
  define acc1 where "acc1 = fold first_block [0..<nbUnitBlocks] (pv0, s)"
  define acc2 where "acc2 = fold (\<lambda>p. fold (position_block P p) [0..<nbUnitBlocks]) [2..<maxPosition + 1] acc1"
  have res: "positionVectors (generatePositionRepresentations P s) = fst acc2"
    unfolding generatePositionRepresentations_def Let_def pv0_def [symmetric] acc1_def [symmetric]
      acc2_def [symmetric]
    by (simp add: split_beta)
  have zero: "pv0 1 j = 0" if "1 \<le> j" "j \<le> nbUnitBlocks * sizeOfPositionBlocks" for j
    unfolding pv0_def set_fold_apply using that n by simp
  have first: "one_hot_block (fst acc1) 1 i" if "i < nbUnitBlocks" for i
    using first_row_one_hot [where pv = pv0 and b = nbUnitBlocks and s = s, OF zero order_refl] that
    unfolding acc1_def by simp
  have "\<forall>q i. 1 \<le> q \<and> q < max 2 (maxPosition + 1) \<and> i < nbUnitBlocks \<longrightarrow> one_hot_block (fst acc2) q i"
    unfolding acc2_def by (rule rows_fold_one_hot) (rule first)
  then show ?thesis
    unfolding res using q i by (simp add: maxPosition_def)
qed

text \<open>The table after the blocks of position 1, and what the later passes leave unchanged.\<close>

lemma first_block_state: "snd (first_block i (pv, s)) = s\<lparr>rand_calls := rand_calls s + 1\<rparr>"
  by (simp add: first_block_def rand_def Let_def)

lemma first_blocks_apply:
  "fold first_block [0..<b] (pv, s) =
     (\<lambda>q j. if q = 1 \<and> (\<exists>i<b. j = i * sizeOfPositionBlocks +
                                    (1 + rand_seq s (rand_calls s + i) mod sizeOfPositionBlocks))
             then 1 else pv q j,
      s\<lparr>rand_calls := rand_calls s + b\<rparr>)"
proof (induction b)
  case 0
  then show ?case by simp
next
  case (Suc b)
  define pv' where "pv' = (\<lambda>q j. if q = 1 \<and> (\<exists>i<b. j = i * sizeOfPositionBlocks +
                                    (1 + rand_seq s (rand_calls s + i) mod sizeOfPositionBlocks))
             then 1 else pv q j)"
  define s' where "s' = s\<lparr>rand_calls := rand_calls s + b\<rparr>"
  have st: "fold first_block [0..<Suc b] (pv, s) = first_block b (pv', s')"
    using Suc unfolding pv'_def s'_def by simp
  have "fst (first_block b (pv', s')) =
      (\<lambda>q j. if q = 1 \<and> (\<exists>i<Suc b. j = i * sizeOfPositionBlocks +
                                    (1 + rand_seq s (rand_calls s + i) mod sizeOfPositionBlocks))
             then 1 else pv q j)"
    unfolding first_block_apply fun_eq_iff pv'_def s'_def
    by (auto simp: less_Suc_eq)
  moreover have "snd (first_block b (pv', s')) = s\<lparr>rand_calls := rand_calls s + Suc b\<rparr>"
    unfolding first_block_state s'_def by simp
  ultimately show ?case
    unfolding st by (simp add: prod_eq_iff)
qed

lemma position_block_seq: "rand_seq (snd (position_block P p i acc)) = rand_seq (snd acc)"
  by (cases acc) (simp add: position_block_def rand_def Let_def)

lemma position_block_frame:
  assumes "q \<noteq> p \<or> j < i * sizeOfPositionBlocks + 1 \<or> (i + 1) * sizeOfPositionBlocks < j"
  shows "fst (position_block P p i acc) q j = fst acc q j"
proof -
  obtain pv s where acc: "acc = (pv, s)" by (cases acc)
  have "\<not> (q = p \<and> i * sizeOfPositionBlocks + 1 \<le> j \<and> j \<le> (i + 1) * sizeOfPositionBlocks)"
    using assms by auto
  then show ?thesis
    unfolding acc position_block_apply by (simp only: if_False fst_conv)
qed

lemma row_fold_frame:
  "rand_seq (snd (fold (position_block P p) [a..<b] acc)) = rand_seq (snd acc) \<and>
   (\<forall>q j. q \<noteq> p \<or> j < a * sizeOfPositionBlocks + 1 \<or> b * sizeOfPositionBlocks < j \<longrightarrow>
      fst (fold (position_block P p) [a..<b] acc) q j = fst acc q j)"
proof (induction b)
  case 0
  then show ?case by simp
next
  case (Suc b)
  show ?case
  proof (cases "a \<le> b")
    case False
    then show ?thesis by simp
  next
    case True
    define mid where "mid = fold (position_block P p) [a..<b] acc"
    have st: "fold (position_block P p) [a..<Suc b] acc = position_block P p b mid"
      unfolding upt_Suc_append [OF True] fold_append comp_apply mid_def by simp
    have seq: "rand_seq (snd mid) = rand_seq (snd acc)"
      and fr: "\<And>q j. q \<noteq> p \<or> j < a * sizeOfPositionBlocks + 1 \<or> b * sizeOfPositionBlocks < j \<Longrightarrow>
        fst mid q j = fst acc q j"
      using Suc unfolding mid_def by simp_all
    have "fst (position_block P p b mid) q j = fst acc q j"
      if c: "q \<noteq> p \<or> j < a * sizeOfPositionBlocks + 1 \<or> Suc b * sizeOfPositionBlocks < j" for q j
    proof -
      have le: "a * sizeOfPositionBlocks \<le> b * sizeOfPositionBlocks"
        using True by (intro mult_le_mono1)
      have 1: "q \<noteq> p \<or> j < b * sizeOfPositionBlocks + 1 \<or> (b + 1) * sizeOfPositionBlocks < j"
        using c le by (simp only: add_mult_distrib mult_Suc mult_1) arith
      have 2: "q \<noteq> p \<or> j < a * sizeOfPositionBlocks + 1 \<or> b * sizeOfPositionBlocks < j"
        using c by auto
      show ?thesis
        unfolding position_block_frame [OF 1] by (rule fr [OF 2])
    qed
    then show ?thesis
      unfolding st position_block_seq seq by simp
  qed
qed

lemma rows_fold_frame:
  "rand_seq (snd (fold (\<lambda>p. fold (position_block P p) [0..<n]) [a..<b] acc)) = rand_seq (snd acc) \<and>
   (\<forall>q j. q < a \<or> b \<le> q \<longrightarrow>
      fst (fold (\<lambda>p. fold (position_block P p) [0..<n]) [a..<b] acc) q j = fst acc q j)"
proof (induction b)
  case 0
  then show ?case by simp
next
  case (Suc b)
  show ?case
  proof (cases "a \<le> b")
    case False
    then show ?thesis by simp
  next
    case True
    define mid where "mid = fold (\<lambda>p. fold (position_block P p) [0..<n]) [a..<b] acc"
    have st: "fold (\<lambda>p. fold (position_block P p) [0..<n]) [a..<Suc b] acc =
        fold (position_block P b) [0..<n] mid"
      unfolding upt_Suc_append [OF True] fold_append comp_apply mid_def by simp
    have seq: "rand_seq (snd mid) = rand_seq (snd acc)"
      and fr: "\<And>q j. q < a \<or> b \<le> q \<Longrightarrow> fst mid q j = fst acc q j"
      using Suc unfolding mid_def by blast+
    have "fst (fold (position_block P b) [0..<n] mid) q j = fst acc q j"
      if c: "q < a \<or> Suc b \<le> q" for q j
    proof -
      have "q \<noteq> b" using c True by auto
      then have "fst (fold (position_block P b) [0..<n] mid) q j = fst mid q j"
        using row_fold_frame [of P b 0 n mid] by simp
      moreover have "fst mid q j = fst acc q j"
        using c by (intro fr) auto
      ultimately show ?thesis by simp
    qed
    moreover have "rand_seq (snd (fold (position_block P b) [0..<n] mid)) = rand_seq (snd acc)"
      using row_fold_frame [of P b 0 n mid] seq by simp
    ultimately show ?thesis
      unfolding st by simp
  qed
qed


lemma block_index_unique:
  assumes "i * sizeOfPositionBlocks + j = i' * sizeOfPositionBlocks + j'"
    and "1 \<le> j" "j \<le> sizeOfPositionBlocks" "1 \<le> j'" "j' \<le> sizeOfPositionBlocks"
  shows "i = i' \<and> j = j'"
proof -
  have "i = i'" using assms unfolding sizeOfPositionBlocks_def by linarith
  then show ?thesis using assms(1) by simp
qed

text \<open>
  C9.  With the number of position units that main sets (nbUnitBlocks * sizeOfPositionBlocks
  = 54), in the table that generatePositionRepresentations leaves every position
  1..maxPosition has, in each of its 9 blocks of 6 units, exactly one unit set to 1 and the
  others 0.  The table is determined by the values rand() returns: \<open>draw p i\<close> is the number
  of calls of rand() made before the pass for block \<open>i\<close> of position \<open>p\<close> (the passes run
  by position, and by block within a position; the first call of the function is call number
  \<open>rand_calls s\<close>).  A block of position 1 takes one draw, which chooses its unit.  For a
  position p > 1 the pass takes the draw rand()%100, a value in 0..99: when it is greater
  than P*100 the block has one unit set, chosen by the next draw, and the others 0 (two
  draws taken); otherwise the block is equal to the block of position p-1 (one draw taken).
\<close>

theorem position_blocks_one_hot_and_markov:
  fixes P :: params and s :: state
  defines "T \<equiv> positionVectors (generatePositionRepresentations P s)"
  assumes n: "nbPositionUnits s = nbUnitBlocks * sizeOfPositionBlocks"
  shows "(\<forall>p\<in>{1..maxPosition}. \<forall>i\<in>{0..<nbUnitBlocks}. one_hot_block T p i) \<and>
    (\<exists>draw :: nat \<Rightarrow> nat \<Rightarrow> nat.
       draw 1 0 = rand_calls s \<and>
       rand_calls (generatePositionRepresentations P s) = draw (maxPosition + 1) 0 \<and>
       (\<forall>p\<in>{1..maxPosition}. \<forall>i\<in>{0..<nbUnitBlocks}.
          (let r = rand_seq s (draw p i);
               r2 = rand_seq s (draw p i + 1);
               following = (if i + 1 < nbUnitBlocks then draw p (i + 1) else draw (p + 1) 0)
           in if p = 1
              then following = draw p i + 1 \<and>
                   (\<forall>j\<in>{1..sizeOfPositionBlocks}.
                      T p (i * sizeOfPositionBlocks + j) =
                        (if j = 1 + r mod sizeOfPositionBlocks then 1 else 0))
              else r mod 100 \<in> {0..99} \<and>
                   (if real (r mod 100) > param_P P * 100
                    then following = draw p i + 2 \<and>
                         (\<forall>j\<in>{1..sizeOfPositionBlocks}.
                            T p (i * sizeOfPositionBlocks + j) =
                              (if j = 1 + r2 mod sizeOfPositionBlocks then 1 else 0))
                    else following = draw p i + 1 \<and>
                         (\<forall>j\<in>{1..sizeOfPositionBlocks}.
                            T p (i * sizeOfPositionBlocks + j) =
                              T (p - 1) (i * sizeOfPositionBlocks + j))))))"
proof -
  define pv0 where "pv0 = fold (\<lambda>i pv. pv(1 := (pv 1)(i := 0))) [1..<nbPositionUnits s + 1] (positionVectors s)"
  define acc1 where "acc1 = fold first_block [0..<nbUnitBlocks] (pv0, s)"
  define R where "R = (\<lambda>p. fold (position_block P p) [0..<nbUnitBlocks])"
  define S where "S = (\<lambda>p. fold R [2..<p] acc1)"
  define S' where "S' = (\<lambda>p i. fold (position_block P p) [0..<i] (S p))"
  define draw where "draw = (\<lambda>p i. if p = 1 then rand_calls s + i else rand_calls (snd (S' p i)))"
  have res: "generatePositionRepresentations P s =
      (snd (S (maxPosition + 1)))\<lparr>positionVectors := fst (S (maxPosition + 1))\<rparr>"
    unfolding generatePositionRepresentations_def Let_def S_def R_def acc1_def pv0_def
    by (simp add: split_beta)
  have T: "T = fst (S (maxPosition + 1))" unfolding T_def res by simp
  have calls: "rand_calls (generatePositionRepresentations P s) = rand_calls (snd (S (maxPosition + 1)))"
    unfolding res by simp
  have acc1: "acc1 =
      (\<lambda>q j. if q = 1 \<and> (\<exists>i<nbUnitBlocks. j = i * sizeOfPositionBlocks +
                                    (1 + rand_seq s (rand_calls s + i) mod sizeOfPositionBlocks))
             then 1 else pv0 q j,
       s\<lparr>rand_calls := rand_calls s + nbUnitBlocks\<rparr>)"
    unfolding acc1_def by (rule first_blocks_apply)
  have zero: "pv0 1 j = 0" if "1 \<le> j" "j \<le> nbUnitBlocks * sizeOfPositionBlocks" for j
    unfolding pv0_def set_fold_apply using that n by simp
  have S2: "S 2 = acc1" unfolding S_def by simp
  have S'0: "S' p 0 = S p" for p unfolding S'_def by simp
  have S'_suc: "S' p (i + 1) = position_block P p i (S' p i)" for p i
    unfolding S'_def by simp
  have S_suc: "S (p + 1) = S' p nbUnitBlocks" if "2 \<le> p" for p
    unfolding S_def S'_def R_def using upt_Suc_append [OF that] by simp
  have S_split: "S (maxPosition + 1) =
      fold (\<lambda>p. fold (position_block P p) [0..<nbUnitBlocks]) [m..<maxPosition + 1] (S m)"
    if m: "2 \<le> m" "m \<le> maxPosition + 1" for m
  proof -
    obtain k where k: "maxPosition + 1 = m + k" using m(2) le_Suc_ex by blast
    show ?thesis
      unfolding S_def R_def k upt_add_eq_append [OF m(1)] fold_append comp_apply ..
  qed
  have S'_split: "S' p nbUnitBlocks = fold (position_block P p) [i..<nbUnitBlocks] (S' p i)"
    if i: "i \<le> nbUnitBlocks" for p i
  proof -
    obtain k where k: "nbUnitBlocks = i + k" using i le_Suc_ex by blast
    have z: "0 \<le> i" by simp
    show ?thesis
      unfolding S'_def k upt_add_eq_append [OF z] fold_append comp_apply ..
  qed
  have seqS: "rand_seq (snd (S p)) = rand_seq s" for p
    using rows_fold_frame [of P nbUnitBlocks 2 p acc1] unfolding S_def R_def
    by (simp add: acc1)
  have seqS': "rand_seq (snd (S' p i)) = rand_seq s" for p i
    using row_fold_frame [of P p 0 i "S p"] seqS [of p] unfolding S'_def by simp
  have T_row: "T q j = fst (S m) q j" if "q < m" "2 \<le> m" "m \<le> maxPosition + 1" for q j m
    unfolding T S_split [OF that(2,3)]
    using rows_fold_frame [of P nbUnitBlocks m "maxPosition + 1" "S m"] that(1) by simp
  have T_first: "T 1 j = fst acc1 1 j" for j
    using T_row [of 1 2 j] unfolding S2 by (simp add: maxPosition_def)
  have T_block: "T p j = fst (S' p (i + 1)) p j"
    if "2 \<le> p" "p \<le> maxPosition" "i < nbUnitBlocks" "j \<le> (i + 1) * sizeOfPositionBlocks" for p i j
  proof -
    have "T p j = fst (S (p + 1)) p j"
      using that(1,2) by (intro T_row) simp_all
    also have "S (p + 1) = fold (position_block P p) [i + 1..<nbUnitBlocks] (S' p (i + 1))"
      unfolding S_suc [OF that(1)] using that(3) by (intro S'_split) simp
    also have "fst (fold (position_block P p) [i + 1..<nbUnitBlocks] (S' p (i + 1))) p j =
        fst (S' p (i + 1)) p j"
      using row_fold_frame [of P p "i + 1" nbUnitBlocks "S' p (i + 1)"] that(4) by simp
    finally show ?thesis .
  qed
  have prev: "fst (S' p i) (p - 1) j = T (p - 1) j" if "2 \<le> p" "p \<le> maxPosition" for p i j
  proof -
    have "p - 1 \<noteq> p" using that(1) by simp
    then have "fst (S' p i) (p - 1) j = fst (S p) (p - 1) j"
      using row_fold_frame [of P p 0 i "S p"] unfolding S'_def by simp
    moreover have "T (p - 1) j = fst (S p) (p - 1) j"
      using that by (intro T_row) simp_all
    ultimately show ?thesis by simp
  qed
  have nxt: "(if i + 1 < nbUnitBlocks then draw p (i + 1) else draw (p + 1) 0) =
      rand_calls (snd (S' p (i + 1)))" if "2 \<le> p" "i < nbUnitBlocks" for p i
  proof (cases "i + 1 < nbUnitBlocks")
    case True
    then show ?thesis using that(1) by (simp add: draw_def)
  next
    case False
    then have "i + 1 = nbUnitBlocks" using that(2) by simp
    then have "S (p + 1) = S' p (i + 1)" using S_suc [OF that(1)] by simp
    then show ?thesis using False that(1) by (simp add: draw_def S'0)
  qed
  have first: "(if i + 1 < nbUnitBlocks then draw 1 (i + 1) else draw (1 + 1) 0) = draw 1 i + 1 \<and>
      (\<forall>j\<in>{1..sizeOfPositionBlocks}.
          T 1 (i * sizeOfPositionBlocks + j) =
            (if j = 1 + rand_seq s (draw 1 i) mod sizeOfPositionBlocks then 1 else 0))"
    if i: "i < nbUnitBlocks" for i
  proof (intro conjI ballI)
    have d2: "draw 2 0 = rand_calls s + nbUnitBlocks"
      by (simp add: draw_def S'0 S2 acc1)
    show "(if i + 1 < nbUnitBlocks then draw 1 (i + 1) else draw (1 + 1) 0) = draw 1 i + 1"
    proof (cases "i + 1 < nbUnitBlocks")
      case True
      then show ?thesis by (simp add: draw_def)
    next
      case False
      then have "nbUnitBlocks = i + 1" using i by simp
      then show ?thesis
        unfolding one_add_one d2 using False by (simp add: draw_def)
    qed
  next
    fix j assume "j \<in> {1..sizeOfPositionBlocks}"
    then have j: "1 \<le> j" "j \<le> sizeOfPositionBlocks" by simp_all
    define k where "k = (\<lambda>i. 1 + rand_seq s (rand_calls s + i) mod sizeOfPositionBlocks)"
    have k: "1 \<le> k i'" "k i' \<le> sizeOfPositionBlocks" for i'
      unfolding k_def by (simp_all add: sizeOfPositionBlocks_def Suc_le_eq)
    have "(i + 1) * sizeOfPositionBlocks \<le> nbUnitBlocks * sizeOfPositionBlocks"
      using i by (intro mult_le_mono1) simp
    then have "pv0 1 (i * sizeOfPositionBlocks + j) = 0"
      using j by (intro zero) simp_all
    moreover have "(\<exists>i'<nbUnitBlocks. i * sizeOfPositionBlocks + j = i' * sizeOfPositionBlocks + k i') =
        (j = k i)"
      using block_index_unique [OF _ j k] i by auto
    ultimately show "T 1 (i * sizeOfPositionBlocks + j) =
            (if j = 1 + rand_seq s (draw 1 i) mod sizeOfPositionBlocks then 1 else 0)"
      unfolding T_first acc1 fst_conv k_def draw_def by simp
  qed
  have later: "rand_seq s (draw p i) mod 100 \<in> {0..99} \<and>
      (if real (rand_seq s (draw p i) mod 100) > param_P P * 100
       then (if i + 1 < nbUnitBlocks then draw p (i + 1) else draw (p + 1) 0) = draw p i + 2 \<and>
            (\<forall>j\<in>{1..sizeOfPositionBlocks}.
               T p (i * sizeOfPositionBlocks + j) =
                 (if j = 1 + rand_seq s (draw p i + 1) mod sizeOfPositionBlocks then 1 else 0))
       else (if i + 1 < nbUnitBlocks then draw p (i + 1) else draw (p + 1) 0) = draw p i + 1 \<and>
            (\<forall>j\<in>{1..sizeOfPositionBlocks}.
               T p (i * sizeOfPositionBlocks + j) = T (p - 1) (i * sizeOfPositionBlocks + j)))"
    if p: "2 \<le> p" "p \<le> maxPosition" and i: "i < nbUnitBlocks" for p i
  proof -
    obtain pv st where acc: "S' p i = (pv, st)" by (cases "S' p i")
    have st: "rand_seq st = rand_seq s" "rand_calls st = draw p i"
      using seqS' [of p i] p(1) unfolding acc draw_def by simp_all
    have pvp: "pv (p - 1) j = T (p - 1) j" for j
      using prev [OF p, of i j] unfolding acc by simp
    have blk: "T p (i * sizeOfPositionBlocks + j) =
        (if real (rand_seq s (draw p i) mod 100) > param_P P * 100
         then (if j = 1 + rand_seq s (draw p i + 1) mod sizeOfPositionBlocks then 1 else 0)
         else T (p - 1) (i * sizeOfPositionBlocks + j))"
      if "j \<in> {1..sizeOfPositionBlocks}" for j
    proof -
      have j: "1 \<le> j" "j \<le> sizeOfPositionBlocks" using that by simp_all
      have "T p (i * sizeOfPositionBlocks + j) = fst (S' p (i + 1)) p (i * sizeOfPositionBlocks + j)"
        using j by (intro T_block [OF p i]) simp
      then show ?thesis
        unfolding S'_suc acc position_block_apply st pvp using j by simp
    qed
    have nx: "(if i + 1 < nbUnitBlocks then draw p (i + 1) else draw (p + 1) 0) =
        (if real (rand_seq s (draw p i) mod 100) > param_P P * 100 then draw p i + 2 else draw p i + 1)"
      unfolding nxt [OF p(1) i] S'_suc acc position_block_calls st ..
    have "rand_seq s (draw p i) mod 100 < 100" by simp
    then have "rand_seq s (draw p i) mod 100 \<in> {0..99}" by auto
    then show ?thesis using blk nx by simp
  qed
  have hot: "\<forall>p\<in>{1..maxPosition}. \<forall>i\<in>{0..<nbUnitBlocks}. one_hot_block T p i"
    unfolding T_def using generatePositionRepresentations_one_hot [OF n] by simp
  have d0: "draw 1 0 = rand_calls s" by (simp add: draw_def)
  have dN: "rand_calls (generatePositionRepresentations P s) = draw (maxPosition + 1) 0"
    unfolding calls by (simp add: draw_def S'0 maxPosition_def)
  have all: "\<forall>p\<in>{1..maxPosition}. \<forall>i\<in>{0..<nbUnitBlocks}.
          (let r = rand_seq s (draw p i);
               r2 = rand_seq s (draw p i + 1);
               following = (if i + 1 < nbUnitBlocks then draw p (i + 1) else draw (p + 1) 0)
           in if p = 1
              then following = draw p i + 1 \<and>
                   (\<forall>j\<in>{1..sizeOfPositionBlocks}.
                      T p (i * sizeOfPositionBlocks + j) =
                        (if j = 1 + r mod sizeOfPositionBlocks then 1 else 0))
              else r mod 100 \<in> {0..99} \<and>
                   (if real (r mod 100) > param_P P * 100
                    then following = draw p i + 2 \<and>
                         (\<forall>j\<in>{1..sizeOfPositionBlocks}.
                            T p (i * sizeOfPositionBlocks + j) =
                              (if j = 1 + r2 mod sizeOfPositionBlocks then 1 else 0))
                    else following = draw p i + 1 \<and>
                         (\<forall>j\<in>{1..sizeOfPositionBlocks}.
                            T p (i * sizeOfPositionBlocks + j) =
                              T (p - 1) (i * sizeOfPositionBlocks + j))))"
  proof (intro ballI)
    fix p i assume "p \<in> {1..maxPosition}" "i \<in> {0..<nbUnitBlocks}"
    then have p: "1 \<le> p" "p \<le> maxPosition" and i: "i < nbUnitBlocks" by simp_all
    show "(let r = rand_seq s (draw p i);
               r2 = rand_seq s (draw p i + 1);
               following = (if i + 1 < nbUnitBlocks then draw p (i + 1) else draw (p + 1) 0)
           in if p = 1
              then following = draw p i + 1 \<and>
                   (\<forall>j\<in>{1..sizeOfPositionBlocks}.
                      T p (i * sizeOfPositionBlocks + j) =
                        (if j = 1 + r mod sizeOfPositionBlocks then 1 else 0))
              else r mod 100 \<in> {0..99} \<and>
                   (if real (r mod 100) > param_P P * 100
                    then following = draw p i + 2 \<and>
                         (\<forall>j\<in>{1..sizeOfPositionBlocks}.
                            T p (i * sizeOfPositionBlocks + j) =
                              (if j = 1 + r2 mod sizeOfPositionBlocks then 1 else 0))
                    else following = draw p i + 1 \<and>
                         (\<forall>j\<in>{1..sizeOfPositionBlocks}.
                            T p (i * sizeOfPositionBlocks + j) =
                              T (p - 1) (i * sizeOfPositionBlocks + j))))"
    proof (cases "p = 1")
      case True
      show ?thesis unfolding Let_def True if_P [OF refl] by (rule first [OF i])
    next
      case False
      then have "2 \<le> p" using p(1) by simp
      then show ?thesis unfolding Let_def if_not_P [OF False] by (rule later [OF _ p(2) i])
    qed
  qed
  show ?thesis
    using hot d0 dN all by blast
qed


theorem position_blocks_one_hot_and_markov_witness:
  "nbPositionUnits blank_state = nbUnitBlocks * sizeOfPositionBlocks \<and>
   positionVectors (generatePositionRepresentations default_params blank_state) 1 (8 * 6 + 2) = 1 \<and>
   positionVectors (generatePositionRepresentations default_params blank_state) 100 (8 * 6 + 2) = 1 \<and>
   positionVectors (generatePositionRepresentations default_params blank_state) 100 (8 * 6 + 3) = 0"
proof -
  let ?T = "positionVectors (generatePositionRepresentations default_params blank_state)"
  have n: "nbPositionUnits blank_state = nbUnitBlocks * sizeOfPositionBlocks"
    by (simp add: blank_state_def nbUnitBlocks_def sizeOfPositionBlocks_def)
  have rs: "rand_seq blank_state k = 1" for k by (simp add: blank_state_def)
  have P: "param_P default_params = 3 / 10" by (simp add: default_params_def)
  from position_blocks_one_hot_and_markov [OF n, of default_params]
  obtain draw :: "nat \<Rightarrow> nat \<Rightarrow> nat" where
    all: "\<forall>p\<in>{1..maxPosition}. \<forall>i\<in>{0..<nbUnitBlocks}.
          (let r = rand_seq blank_state (draw p i);
               r2 = rand_seq blank_state (draw p i + 1);
               following = (if i + 1 < nbUnitBlocks then draw p (i + 1) else draw (p + 1) 0)
           in if p = 1
              then following = draw p i + 1 \<and>
                   (\<forall>j\<in>{1..sizeOfPositionBlocks}.
                      ?T p (i * sizeOfPositionBlocks + j) =
                        (if j = 1 + r mod sizeOfPositionBlocks then 1 else 0))
              else r mod 100 \<in> {0..99} \<and>
                   (if real (r mod 100) > param_P default_params * 100
                    then following = draw p i + 2 \<and>
                         (\<forall>j\<in>{1..sizeOfPositionBlocks}.
                            ?T p (i * sizeOfPositionBlocks + j) =
                              (if j = 1 + r2 mod sizeOfPositionBlocks then 1 else 0))
                    else following = draw p i + 1 \<and>
                         (\<forall>j\<in>{1..sizeOfPositionBlocks}.
                            ?T p (i * sizeOfPositionBlocks + j) =
                              ?T (p - 1) (i * sizeOfPositionBlocks + j))))"
    by (elim conjE exE)
  have blocks: "if p = 1 then ?T p (i * 6 + j) = (if j = 2 then 1 else 0)
      else ?T p (i * 6 + j) = ?T (p - 1) (i * 6 + j)"
    if "1 \<le> p" "p \<le> 100" "i < 9" "1 \<le> j" "j \<le> 6" for p i j
  proof -
    have p: "p \<in> {1..maxPosition}" and i: "i \<in> {0..<nbUnitBlocks}"
      and j: "j \<in> {1..sizeOfPositionBlocks}"
      using that by (simp_all add: maxPosition_def nbUnitBlocks_def sizeOfPositionBlocks_def)
    show ?thesis
    proof (cases "p = 1")
      case True
      have "\<forall>j\<in>{1..sizeOfPositionBlocks}. ?T p (i * sizeOfPositionBlocks + j) =
          (if j = 1 + 1 mod sizeOfPositionBlocks then 1 else 0)"
        using bspec [OF bspec [OF all p] i] True unfolding Let_def rs by simp
      from bspec [OF this j] show ?thesis
        using True by (simp add: sizeOfPositionBlocks_def)
    next
      case False
      have "\<forall>j\<in>{1..sizeOfPositionBlocks}. ?T p (i * sizeOfPositionBlocks + j) =
          ?T (p - 1) (i * sizeOfPositionBlocks + j)"
        using bspec [OF bspec [OF all p] i] False unfolding Let_def rs P by simp
      from bspec [OF this j] show ?thesis
        using False by (simp add: sizeOfPositionBlocks_def)
    qed
  qed
  have row: "?T (Suc p) (i * 6 + j) = (if j = 2 then 1 else 0)"
    if "i < 9" "1 \<le> j" "j \<le> 6" "p < 100" for p i j
    using that(4)
  proof (induction p)
    case 0
    then show ?case using blocks [of 1 i j] that(1,2,3) by simp
  next
    case (Suc p)
    then show ?case using blocks [of "Suc (Suc p)" i j] that(1,2,3) by simp
  qed
  show ?thesis
    using n row [of 8 2 0] row [of 8 2 99] row [of 8 3 99] by simp
qed

section \<open>Refreshing\<close>

lemma randomNormal_upper:
  assumes "1 \<le> rand_seq s (rand_calls s)" and "rand_seq s (rand_calls s) \<le> RAND_MAX"
  shows "fst (randomNormal mean std s) \<le> mean + \<bar>std\<bar> * sqrt (2 * ln (real RAND_MAX + 1))"
proof -
  define u where "u = uniform01 (rand_seq s (rand_calls s))"
  define v where "v = uniform01 (rand_seq s (rand_calls s + 1))"
  have val: "fst (randomNormal mean std s) =
      mean + std * sqrt (- 2 * ln u) * cos (2 * (31415926535 / 10000000000) * v)"
    by (simp add: randomNormal_def rand_def Let_def u_def v_def)
  have pos: "0 < real RAND_MAX + 1" by simp
  have lo: "1 / (real RAND_MAX + 1) \<le> u"
    unfolding u_def uniform01_def using assms(1) pos by (simp add: divide_right_mono)
  have hi: "u \<le> 1"
    unfolding u_def uniform01_def using assms(2) pos by simp
  have u0: "0 < u" using lo pos by (meson divide_pos_pos less_le_trans zero_less_one)
  have "ln (1 / (real RAND_MAX + 1)) \<le> ln u"
    using lo pos u0 by (simp add: ln_le_cancel_iff del: ln_div)
  then have a: "- 2 * ln u \<le> 2 * ln (real RAND_MAX + 1)"
    using pos by (simp add: ln_div)
  have b: "0 \<le> - 2 * ln u"
    using hi u0 by (simp add: ln_le_zero_iff)
  have s: "sqrt (- 2 * ln u) \<le> sqrt (2 * ln (real RAND_MAX + 1))"
    using a by simp
  have s0: "0 \<le> sqrt (- 2 * ln u)" using b by simp
  have "std * sqrt (- 2 * ln u) * cos (2 * (31415926535 / 10000000000) * v)
      \<le> \<bar>std * sqrt (- 2 * ln u) * cos (2 * (31415926535 / 10000000000) * v)\<bar>"
    by simp
  also have "\<dots> = \<bar>std\<bar> * sqrt (- 2 * ln u) * \<bar>cos (2 * (31415926535 / 10000000000) * v)\<bar>"
    using s0 by (simp add: abs_mult)
  also have "\<dots> \<le> \<bar>std\<bar> * sqrt (- 2 * ln u) * 1"
    using s0 by (intro mult_left_mono) (simp_all add: abs_cos_le_one)
  also have "\<dots> \<le> \<bar>std\<bar> * sqrt (2 * ln (real RAND_MAX + 1))"
    using s by (simp add: mult_left_mono)
  finally show ?thesis unfolding val by simp
qed

lemma randomNormal_frame:
  "var_tauR (snd (randomNormal m sd s)) = var_tauR s"
  "rand_seq (snd (randomNormal m sd s)) = rand_seq s"
  "rand_calls (snd (randomNormal m sd s)) = rand_calls s + 2"
  by (simp_all add: randomNormal_state)

lemma retrieve_fields:
  "var_tauR (snd (retrieve P pos status best s)) = var_tauR s"
  "rand_seq (snd (retrieve P pos status best s)) = rand_seq s"
proof -
  obtain t n where "snd (retrieve P pos status best s) = s\<lparr>var_tr := t, rand_calls := n\<rparr>"
    using retrieve_frame by blast
  then show "var_tauR (snd (retrieve P pos status best s)) = var_tauR s"
    and "rand_seq (snd (retrieve P pos status best s)) = rand_seq s"
    by simp_all
qed

text \<open>The rate a call of encode draws.\<close>

lemma encode_refresh:
  fixes P ci b pos tl sd dur s
  defines "r0 \<equiv> fst (randomNormal (param_R P) (param_s P) s)"
  defines "r \<equiv> (if r0 < 1 / 10 then 1 / 10 else r0)"
  defines "tr \<equiv> - ln (1 - var_tauR s) / r"
  shows "fst (encode P 0 ci b pos tl sd dur 0 s) =
           (if dur = - 1 then (if tr > tl then tl else tr) else dur)"
    and "var_tauR (snd (encode P 0 ci b pos tl sd dur 0 s)) = var_tauR s"
    and "rand_seq (snd (encode P 0 ci b pos tl sd dur 0 s)) = rand_seq s"
  unfolding r0_def r_def tr_def
  by (simp_all add: encode_def encode_duration_def split_beta Let_def randomNormal_frame)

lemma refresh_item_given:
  assumes "dur \<noteq> - 1"
  shows "fst (snd (refresh_item P lp t (cp, dur, b, s))) = dur"
    and "var_tauR (snd (snd (snd (refresh_item P lp t (cp, dur, b, s))))) = var_tauR s"
    and "rand_seq (snd (snd (snd (refresh_item P lp t (cp, dur, b, s))))) = rand_seq s"
  using assms
  by (simp_all add: refresh_item_def split_beta Let_def encode_refresh retrieve_fields)

lemma refresh_item_first:
  fixes P lp t cp b s
  defines "s1 \<equiv> snd (retrieve P cp 1 b s)"
  defines "r0 \<equiv> fst (randomNormal (param_R P) (param_s P) s1)"
  defines "r \<equiv> (if r0 < 1 / 10 then 1 / 10 else r0)"
  defines "tr \<equiv> - ln (1 - var_tauR s) / r"
  shows "fst (snd (refresh_item P lp t (cp, - 1, b, s))) = (if tr > t then t else tr)"
    and "var_tauR (snd (snd (snd (refresh_item P lp t (cp, - 1, b, s))))) = var_tauR s"
    and "rand_seq (snd (snd (snd (refresh_item P lp t (cp, - 1, b, s))))) = rand_seq s"
  unfolding tr_def r_def r0_def s1_def
  by (simp_all add: refresh_item_def split_beta Let_def encode_refresh retrieve_fields)

lemma refresh_window_given:
  assumes "dur \<noteq> - 1"
  shows "fst (snd (refresh_window P lp t n (cp, dur, b, s))) = dur \<and>
     var_tauR (snd (snd (snd (refresh_window P lp t n (cp, dur, b, s))))) = var_tauR s \<and>
     rand_seq (snd (snd (snd (refresh_window P lp t n (cp, dur, b, s))))) = rand_seq s"
proof (induction n arbitrary: cp b s)
  case 0
  then show ?case by simp
next
  case (Suc n)
  obtain cp' d' b' s' where it: "refresh_item P lp t (cp, dur, b, s) = (cp', d', b', s')"
    by (cases "refresh_item P lp t (cp, dur, b, s)") auto
  have "d' = dur" "var_tauR s' = var_tauR s" "rand_seq s' = rand_seq s"
    using refresh_item_given [OF assms, of P lp t cp b s] unfolding it by simp_all
  then show ?case
    using Suc [of cp' b' s'] by (simp add: it)
qed

lemma refresh_window_first:
  assumes "fst (snd (refresh_item P lp t (cp, - 1, b, s))) \<noteq> - 1"
  shows "fst (snd (refresh_window P lp t (Suc n) (cp, - 1, b, s))) =
           fst (snd (refresh_item P lp t (cp, - 1, b, s)))"
    and "var_tauR (snd (snd (snd (refresh_window P lp t (Suc n) (cp, - 1, b, s))))) = var_tauR s"
    and "rand_seq (snd (snd (snd (refresh_window P lp t (Suc n) (cp, - 1, b, s))))) = rand_seq s"
proof -
  obtain cp' d' b' s' where it: "refresh_item P lp t (cp, - 1, b, s) = (cp', d', b', s')"
    by (cases "refresh_item P lp t (cp, - 1, b, s)") auto
  have d': "d' \<noteq> - 1" using assms unfolding it by simp
  have fr: "var_tauR s' = var_tauR s" "rand_seq s' = rand_seq s"
    using refresh_item_first(2,3) [of P lp t cp b s] unfolding it by simp_all
  show "fst (snd (refresh_window P lp t (Suc n) (cp, - 1, b, s))) =
           fst (snd (refresh_item P lp t (cp, - 1, b, s)))"
    and "var_tauR (snd (snd (snd (refresh_window P lp t (Suc n) (cp, - 1, b, s))))) = var_tauR s"
    and "rand_seq (snd (snd (snd (refresh_window P lp t (Suc n) (cp, - 1, b, s))))) = rand_seq s"
    using refresh_window_given [OF d', of P lp t n cp' b' s'] fr by (simp_all add: it)
qed

text \<open>With rand() in 1..RAND_MAX the first duration of a window is at least
  min(c / B, t), for c = -ln(1 - var_tauR) and B the largest rate that can be drawn.\<close>

lemma refresh_item_first_bounds:
  fixes P s
  defines "c \<equiv> - ln (1 - var_tauR s)"
  defines "B \<equiv> max (1 / 10) (param_R P + \<bar>param_s P\<bar> * sqrt (2 * ln (real RAND_MAX + 1)))"
  assumes tau: "0 < var_tauR s" "var_tauR s < 1"
    and rnd: "\<forall>k. 1 \<le> rand_seq s k \<and> rand_seq s k \<le> RAND_MAX"
    and t: "0 < t"
  shows "min (c / B) t \<le> fst (snd (refresh_item P lp t (cp, - 1, b, s)))"
    and "fst (snd (refresh_item P lp t (cp, - 1, b, s))) \<le> t"
    and "0 < c / B"
proof -
  define s1 where "s1 = snd (retrieve P cp 1 b s)"
  define r0 where "r0 = fst (randomNormal (param_R P) (param_s P) s1)"
  define r where "r = (if r0 < 1 / 10 then 1 / 10 else r0)"
  have d: "fst (snd (refresh_item P lp t (cp, - 1, b, s))) = (if c / r > t then t else c / r)"
    unfolding c_def r_def r0_def s1_def by (rule refresh_item_first(1))
  have seq: "rand_seq s1 = rand_seq s"
    unfolding s1_def by (rule retrieve_fields)
  have "r0 \<le> param_R P + \<bar>param_s P\<bar> * sqrt (2 * ln (real RAND_MAX + 1))"
    unfolding r0_def using rnd by (intro randomNormal_upper) (simp_all add: seq)
  then have rB: "r \<le> B" unfolding r_def B_def by auto
  have r: "1 / 10 \<le> r" unfolding r_def by simp
  then have rpos: "0 < r" by linarith
  have Bpos: "0 < B" using rB rpos by linarith
  have "ln (1 - var_tauR s) < 0"
    using tau by (simp add: ln_less_zero_iff)
  then have cpos: "0 < c" unfolding c_def by simp
  show "0 < c / B" using cpos Bpos by simp
  have "c / B \<le> c / r"
    using rB rpos cpos by (simp add: frac_le)
  then show "min (c / B) t \<le> fst (snd (refresh_item P lp t (cp, - 1, b, s)))"
    unfolding d by auto
  show "fst (snd (refresh_item P lp t (cp, - 1, b, s))) \<le> t"
    unfolding d by auto
qed

lemma refresh_loop_stop:
  "\<not> 0 < t \<Longrightarrow> refresh_loop P lp (t, cp, b, s) = Some s"
  by (subst refresh_loop.simps) simp

lemma refresh_loop_step:
  assumes "0 < t"
  shows "refresh_loop P lp (t, cp, b, s) =
     (let w = refresh_window P lp t (nat (min_c (param_attentionalFocusSize P) (int lp))) (cp, - 1, b, s);
          d = fst (snd w)
      in refresh_loop P lp (if t - d < 0 then 0 else t - d, fst w, fst (snd (snd w)), snd (snd (snd w))))"
  using assms by (subst refresh_loop.simps) (simp add: split_beta Let_def)

lemma refresh_loop_terminates:
  fixes P :: params and tau :: real and rs :: "nat \<Rightarrow> nat"
  defines "c \<equiv> - ln (1 - tau)"
  defines "B \<equiv> max (1 / 10) (param_R P + \<bar>param_s P\<bar> * sqrt (2 * ln (real RAND_MAX + 1)))"
  assumes lp: "1 \<le> lp" and afs: "1 \<le> param_attentionalFocusSize P"
    and tau: "0 < tau" "tau < 1"
    and rnd: "\<forall>k. 1 \<le> rs k \<and> rs k \<le> RAND_MAX"
  shows "t \<le> real n * (c / B) \<Longrightarrow> var_tauR s = tau \<Longrightarrow> rand_seq s = rs \<Longrightarrow>
     \<exists>s'. refresh_loop P lp (t, cp, b, s) = Some s'"
proof (induction n arbitrary: t cp b s)
  case 0
  then have "\<not> 0 < t" by simp
  then show ?case by (simp add: refresh_loop_stop)
next
  case (Suc n)
  show ?case
  proof (cases "0 < t")
    case False
    then show ?thesis by (simp add: refresh_loop_stop)
  next
    case True
    have "1 \<le> min_c (param_attentionalFocusSize P) (int lp)"
      using lp afs by (simp add: min_c_def)
    then obtain m where m: "nat (min_c (param_attentionalFocusSize P) (int lp)) = Suc m"
      by (metis Suc_pred' zero_less_nat_eq less_le_trans zero_less_one)
    define w where "w = refresh_window P lp t (Suc m) (cp, - 1, b, s)"
    define d where "d = fst (snd (refresh_item P lp t (cp, - 1, b, s)))"
    have tau': "0 < var_tauR s" "var_tauR s < 1" using tau Suc.prems by simp_all
    have rnd': "\<forall>k. 1 \<le> rand_seq s k \<and> rand_seq s k \<le> RAND_MAX" using rnd Suc.prems by simp
    have lo: "min (c / B) t \<le> d" and hi: "d \<le> t"
      using refresh_item_first_bounds(1,2) [OF tau' rnd' True, where P = P and lp = lp and cp = cp and b = b]
        Suc.prems
      unfolding d_def c_def B_def by simp_all
    have delta: "0 < c / B"
      using refresh_item_first_bounds(3) [OF tau' rnd' True, where P = P] Suc.prems
      unfolding c_def B_def by simp
    have "0 < d" using lo delta True by (simp add: min_def split: if_splits)
    then have "d \<noteq> - 1" by simp
    then have wd: "fst (snd w) = d" and wt: "var_tauR (snd (snd (snd w))) = tau"
      and wr: "rand_seq (snd (snd (snd w))) = rs"
      using refresh_window_first [of P lp t cp b s m] Suc.prems unfolding w_def d_def by simp_all
    have next_t: "(if t - d < 0 then 0 else t - d) \<le> real n * (c / B)"
    proof (cases "c / B \<le> t")
      case True
      then have "c / B \<le> d" using lo by simp
      then have "t - d \<le> real (Suc n) * (c / B) - c / B" using Suc.prems(1) by simp
      also have "\<dots> = real n * (c / B)" by (simp add: algebra_simps)
      finally show ?thesis using hi by simp
    next
      case False
      then have "t \<le> d" using lo by simp
      then have "t - d \<le> 0" by simp
      moreover have "0 \<le> real n * (c / B)"
        using delta by (intro mult_nonneg_nonneg) simp_all
      ultimately show ?thesis by simp
    qed
    show ?thesis
      unfolding refresh_loop_step [OF True] m w_def [symmetric] Let_def wd
      by (rule Suc.IH [OF next_t wt wr])
  qed
qed

section \<open>Termination of refreshing in binary32 arithmetic\<close>

text \<open>The error of the rounding, and two values of it.\<close>

lemma round_even_error: "\<bar>of_int (round_even x) - x\<bar> \<le> 1 / 2"
proof -
  have "of_int \<lfloor>x\<rfloor> \<le> x" "x < of_int \<lfloor>x\<rfloor> + 1" by linarith+
  then show ?thesis
    unfolding round_even_def Let_def by (auto simp: abs_le_iff)
qed

lemma round_even_of_int [simp]: "round_even (of_int n) = n"
  by (simp add: round_even_def)

lemma round_even_numeral [simp]: "round_even (numeral n) = numeral n"
  using round_even_of_int [of "numeral n"] by simp

lemma float32_zero [simp]: "float32 0 = 0"
  by (simp add: float32_def)

lemma float32_ulp:
  assumes "x \<noteq> 0"
  shows "\<bar>float32 x - x\<bar> \<le> 2 powi (max (- 126) \<lfloor>log 2 \<bar>x\<bar>\<rfloor> - 23) / 2"
proof -
  define u :: real where "u = 2 powi (max (- 126) \<lfloor>log 2 \<bar>x\<bar>\<rfloor> - 23)"
  have u: "0 < u" unfolding u_def by simp
  have "float32 x - x = u * (of_int (round_even (x / u)) - x / u)"
    using assms u unfolding float32_def Let_def u_def [symmetric] by (simp add: algebra_simps)
  then have "\<bar>float32 x - x\<bar> = u * \<bar>of_int (round_even (x / u)) - x / u\<bar>"
    using u by (simp add: abs_mult)
  also have "\<dots> \<le> u * (1 / 2)"
    using u round_even_error [of "x / u"] by (intro mult_left_mono) simp_all
  finally show ?thesis unfolding u_def by simp
qed

lemma powi_floor_log_le:
  assumes "x \<noteq> 0"
  shows "2 powi \<lfloor>log 2 \<bar>x\<bar>\<rfloor> \<le> \<bar>x\<bar>"
proof -
  have pos: "0 < \<bar>x\<bar>" using assms by simp
  have "(2::real) powr of_int \<lfloor>log 2 \<bar>x\<bar>\<rfloor> \<le> 2 powr log 2 \<bar>x\<bar>"
    by (intro powr_mono) simp_all
  also have "\<dots> = \<bar>x\<bar>" using pos by simp
  finally show ?thesis by (simp add: powr_real_of_int')
qed

lemma float32_error: "\<bar>float32 x - x\<bar> \<le> \<bar>x\<bar> / 2 ^ 24 + 1 / 2 ^ 150"
proof (cases "x = 0")
  case True
  then show ?thesis by simp
next
  case False
  show ?thesis
  proof (cases "- 126 \<le> \<lfloor>log 2 \<bar>x\<bar>\<rfloor>")
    case True
    then have e: "max (- 126) \<lfloor>log 2 \<bar>x\<bar>\<rfloor> = \<lfloor>log 2 \<bar>x\<bar>\<rfloor>" by simp
    have "(2::real) powi (\<lfloor>log 2 \<bar>x\<bar>\<rfloor> - 23) = 2 powi \<lfloor>log 2 \<bar>x\<bar>\<rfloor> / 2 ^ 23"
      by (simp add: power_int_diff)
    also have "\<dots> \<le> \<bar>x\<bar> / 2 ^ 23"
      using powi_floor_log_le [OF False] by (simp add: divide_right_mono)
    finally have "(2::real) powi (\<lfloor>log 2 \<bar>x\<bar>\<rfloor> - 23) / 2 \<le> \<bar>x\<bar> / 2 ^ 23 / 2"
      by (rule divide_right_mono) simp
    then have "\<bar>float32 x - x\<bar> \<le> \<bar>x\<bar> / 2 ^ 23 / 2"
      using float32_ulp [OF False] unfolding e by (rule order_trans [rotated])
    then show ?thesis by simp
  next
    case False
    then have e: "max (- 126) \<lfloor>log 2 \<bar>x\<bar>\<rfloor> = - 126" by simp
    define eta :: real where "eta = 1 / 2 ^ 150"
    have "(2::real) powi (- 126 - 23) / 2 = eta"
      unfolding eta_def by (simp add: power_int_minus_divide)
    then have "\<bar>float32 x - x\<bar> \<le> eta"
      using float32_ulp [OF \<open>x \<noteq> 0\<close>] unfolding e by simp
    moreover have "0 \<le> \<bar>x\<bar> / 2 ^ 24" by simp
    ultimately have "\<bar>float32 x - x\<bar> \<le> \<bar>x\<bar> / 2 ^ 24 + eta" by linarith
    then show ?thesis unfolding eta_def .
  qed
qed

lemma float32_exponent:
  assumes "2 powi e \<le> \<bar>x\<bar>" "\<bar>x\<bar> < 2 powi (e + 1)" "- 126 \<le> e"
  shows "float32 x = 2 powi (e - 23) * of_int (round_even (x / 2 powi (e - 23)))"
proof -
  have pos: "0 < \<bar>x\<bar>"
    using assms(1) zero_less_power_int [of "2::real" e] by linarith
  have 1: "(2::real) powr of_int e = 2 powi e"
    by (simp add: powr_real_of_int')
  have 2: "(2::real) powr of_int (e + 1) = 2 powi (e + 1)"
    by (rule powr_real_of_int') simp_all
  have b: "(1::real) < 2" by simp
  have "2 powr of_int e \<le> \<bar>x\<bar> \<and> \<bar>x\<bar> < 2 powr of_int (e + 1)"
    unfolding 1 2 using assms(1,2) by simp
  then have "\<lfloor>log 2 \<bar>x\<bar>\<rfloor> = e"
    by (simp only: floor_log_eq_powr_iff [OF pos b])
  then show ?thesis
    using pos assms(3) by (simp add: float32_def Let_def)
qed

lemma float32_one [simp]: "float32 1 = 1"
  using float32_exponent [of 0 1] by simp

lemma float32_below_one: "float32 (1 - 1 / 2 ^ 26) = 1"
proof -
  have "\<lfloor>(1 - 1 / 2 ^ 26) * 2 ^ 24 :: real\<rfloor> = 2 ^ 24 - 1"
    by (rule floor_unique) simp_all
  then have "round_even ((1 - 1 / 2 ^ 26) * 2 ^ 24) = 2 ^ 24"
    by (simp add: round_even_def Let_def)
  then show ?thesis
    using float32_exponent [of "- 1" "1 - 1 / 2 ^ 26"]
    by (simp add: power_int_minus_divide)
qed


lemma float32_bounds:
  "x - (\<bar>x\<bar> / 2 ^ 24 + 1 / 2 ^ 150) \<le> float32 x"
  "float32 x \<le> x + (\<bar>x\<bar> / 2 ^ 24 + 1 / 2 ^ 150)"
  using float32_error [of x] by (simp_all add: abs_le_iff)

text \<open>The rate a call of encode draws, and what the call returns and keeps.\<close>

lemma encode_f32_refresh:
  fixes P ci b pos tl sd dur s
  defines "r0 \<equiv> fst (randomNormal (param_R P) (param_s P) s)"
  defines "r \<equiv> (if float32 r0 < 1 / 10 then float32 (1 / 10) else float32 r0)"
  defines "tr \<equiv> float32 (- ln (float32 (1 - var_tauR s)) / r)"
  shows "fst (encode_f32 P 0 ci b pos tl sd dur 0 s) =
           (if dur = - 1 then (if tr > tl then tl else tr) else dur)"
    and "var_tauR (snd (encode_f32 P 0 ci b pos tl sd dur 0 s)) = var_tauR s"
    and "rand_seq (snd (encode_f32 P 0 ci b pos tl sd dur 0 s)) = rand_seq s"
  unfolding r0_def r_def tr_def
  by (simp_all add: encode_f32_def encode_duration_f32_def split_beta Let_def randomNormal_frame)

lemma refresh_item_f32_given:
  assumes "dur \<noteq> - 1"
  shows "fst (snd (refresh_item_f32 P lp t (cp, dur, b, s))) = dur"
    and "var_tauR (snd (snd (snd (refresh_item_f32 P lp t (cp, dur, b, s))))) = var_tauR s"
    and "rand_seq (snd (snd (snd (refresh_item_f32 P lp t (cp, dur, b, s))))) = rand_seq s"
  using assms
  by (simp_all add: refresh_item_f32_def split_beta Let_def encode_f32_refresh retrieve_fields)

lemma refresh_item_f32_first:
  fixes P lp t cp b s
  defines "s1 \<equiv> snd (retrieve P cp 1 b s)"
  defines "r0 \<equiv> fst (randomNormal (param_R P) (param_s P) s1)"
  defines "r \<equiv> (if float32 r0 < 1 / 10 then float32 (1 / 10) else float32 r0)"
  defines "tr \<equiv> float32 (- ln (float32 (1 - var_tauR s)) / r)"
  shows "fst (snd (refresh_item_f32 P lp t (cp, - 1, b, s))) = (if tr > t then t else tr)"
    and "var_tauR (snd (snd (snd (refresh_item_f32 P lp t (cp, - 1, b, s))))) = var_tauR s"
    and "rand_seq (snd (snd (snd (refresh_item_f32 P lp t (cp, - 1, b, s))))) = rand_seq s"
  unfolding tr_def r_def r0_def s1_def
  by (simp_all add: refresh_item_f32_def split_beta Let_def encode_f32_refresh retrieve_fields)

lemma refresh_window_f32_given:
  assumes "dur \<noteq> - 1"
  shows "fst (snd (refresh_window_f32 P lp t n (cp, dur, b, s))) = dur \<and>
     var_tauR (snd (snd (snd (refresh_window_f32 P lp t n (cp, dur, b, s))))) = var_tauR s \<and>
     rand_seq (snd (snd (snd (refresh_window_f32 P lp t n (cp, dur, b, s))))) = rand_seq s"
proof (induction n arbitrary: cp b s)
  case 0
  then show ?case by simp
next
  case (Suc n)
  obtain cp' d' b' s' where it: "refresh_item_f32 P lp t (cp, dur, b, s) = (cp', d', b', s')"
    by (cases "refresh_item_f32 P lp t (cp, dur, b, s)") auto
  have "d' = dur" "var_tauR s' = var_tauR s" "rand_seq s' = rand_seq s"
    using refresh_item_f32_given [OF assms, of P lp t cp b s] unfolding it by simp_all
  then show ?case
    using Suc [of cp' b' s'] by (simp add: it)
qed

lemma refresh_window_f32_first:
  assumes "fst (snd (refresh_item_f32 P lp t (cp, - 1, b, s))) \<noteq> - 1"
  shows "fst (snd (refresh_window_f32 P lp t (Suc n) (cp, - 1, b, s))) =
           fst (snd (refresh_item_f32 P lp t (cp, - 1, b, s)))"
    and "var_tauR (snd (snd (snd (refresh_window_f32 P lp t (Suc n) (cp, - 1, b, s))))) = var_tauR s"
    and "rand_seq (snd (snd (snd (refresh_window_f32 P lp t (Suc n) (cp, - 1, b, s))))) = rand_seq s"
proof -
  obtain cp' d' b' s' where it: "refresh_item_f32 P lp t (cp, - 1, b, s) = (cp', d', b', s')"
    by (cases "refresh_item_f32 P lp t (cp, - 1, b, s)") auto
  have d': "d' \<noteq> - 1" using assms unfolding it by simp
  have fr: "var_tauR s' = var_tauR s" "rand_seq s' = rand_seq s"
    using refresh_item_f32_first(2,3) [of P lp t cp b s] unfolding it by simp_all
  show "fst (snd (refresh_window_f32 P lp t (Suc n) (cp, - 1, b, s))) =
           fst (snd (refresh_item_f32 P lp t (cp, - 1, b, s)))"
    and "var_tauR (snd (snd (snd (refresh_window_f32 P lp t (Suc n) (cp, - 1, b, s))))) = var_tauR s"
    and "rand_seq (snd (snd (snd (refresh_window_f32 P lp t (Suc n) (cp, - 1, b, s))))) = rand_seq s"
    using refresh_window_f32_given [OF d', of P lp t n cp' b' s'] fr by (simp_all add: it)
qed

text \<open>The rounded rate lies between 0.09 and twice the largest rate that can be drawn.\<close>

lemma rate_f32_bounds:
  fixes r0 B :: real
  defines "r \<equiv> (if float32 r0 < 1 / 10 then float32 (1 / 10) else float32 r0)"
  assumes r0: "r0 \<le> B" and B: "1 / 10 \<le> B"
  shows "9 / 100 \<le> r" and "r \<le> 2 * B"
proof -
  define eps :: real where "eps = 1 / 2 ^ 24"
  define eta :: real where "eta = 1 / 2 ^ 150"
  have eps: "0 < eps" "eps \<le> 1 / 100" unfolding eps_def by simp_all
  have eta: "0 < eta" "eta \<le> 1 / 1000" unfolding eta_def by simp_all
  have lo: "x - (\<bar>x\<bar> * eps + eta) \<le> float32 x" and hi: "float32 x \<le> x + (\<bar>x\<bar> * eps + eta)" for x
    using float32_bounds [of x] unfolding eps_def eta_def by simp_all
  show "9 / 100 \<le> r"
  proof (cases "float32 r0 < 1 / 10")
    case True
    have "(1 / 10 :: real) * eps \<le> 1 / 10 * (1 / 100)"
      using eps by (intro mult_left_mono) simp_all
    then show ?thesis
      using lo [of "1 / 10"] eta True unfolding r_def by simp
  next
    case False
    then show ?thesis unfolding r_def by simp
  qed
  show "r \<le> 2 * B"
  proof (cases "float32 r0 < 1 / 10")
    case True
    have "(1 / 10 :: real) * eps \<le> 1 / 10 * (1 / 100)"
      using eps by (intro mult_left_mono) simp_all
    then show ?thesis
      using hi [of "1 / 10"] eta True B unfolding r_def by simp
  next
    case False
    have pos: "0 < r0"
    proof (rule ccontr)
      assume "\<not> 0 < r0"
      then have n: "r0 \<le> 0" by simp
      then have "\<bar>r0\<bar> * eps \<le> \<bar>r0\<bar> * 1"
        using eps by (intro mult_left_mono) simp_all
      then have "r0 + \<bar>r0\<bar> * eps \<le> 0" using n by simp
      then show False using hi [of r0] eta False by simp
    qed
    have "\<bar>r0\<bar> * eps \<le> B * (1 / 100)"
      using pos r0 eps by (intro mult_mono) simp_all
    then show ?thesis
      using hi [of r0] eta False B r0 unfolding r_def by simp
  qed
qed


text \<open>With rand() in 1..RAND_MAX, var_tauR between 2^-22 and 1 - 2^-24 and rates of at most
  2^100, the first duration of a window is at least min(var_tauR / (8 B), t), for B the
  largest rate that can be drawn.\<close>

lemma refresh_item_f32_bounds:
  fixes P s
  defines "B \<equiv> max (1 / 10) (param_R P + \<bar>param_s P\<bar> * sqrt (2 * ln (real RAND_MAX + 1)))"
  assumes tau: "1 / 2 ^ 22 \<le> var_tauR s" "var_tauR s \<le> 1 - 1 / 2 ^ 24"
    and rnd: "\<forall>k. 1 \<le> rand_seq s k \<and> rand_seq s k \<le> RAND_MAX"
    and B: "B \<le> 2 ^ 100"
    and t: "0 < t"
  shows "min (var_tauR s / (8 * B)) t \<le> fst (snd (refresh_item_f32 P lp t (cp, - 1, b, s)))"
    and "fst (snd (refresh_item_f32 P lp t (cp, - 1, b, s))) \<le> t"
    and "1 / 2 ^ 125 \<le> var_tauR s / (8 * B)"
proof -
  define s1 where "s1 = snd (retrieve P cp 1 b s)"
  define r0 where "r0 = fst (randomNormal (param_R P) (param_s P) s1)"
  define r where "r = (if float32 r0 < 1 / 10 then float32 (1 / 10) else float32 r0)"
  define v where "v = var_tauR s"
  define u where "u = float32 (1 - v)"
  define x where "x = - ln u / r"
  define tr where "tr = float32 x"
  define eps :: real where "eps = 1 / 2 ^ 24"
  define eta :: real where "eta = 1 / 2 ^ 150"
  have eps: "0 < eps" "eps \<le> 1 / 4" "4 * eps = 1 / 2 ^ 22" unfolding eps_def by simp_all
  have eta: "0 < eta" "eta \<le> eps" "eta < eps * (1 - eps)" "4 * eta = 1 / 2 ^ 148"
    unfolding eta_def eps_def by simp_all
  have lo: "y - (\<bar>y\<bar> * eps + eta) \<le> float32 y" and hi: "float32 y \<le> y + (\<bar>y\<bar> * eps + eta)" for y
    using float32_bounds [of y] unfolding eps_def eta_def by simp_all
  have d: "fst (snd (refresh_item_f32 P lp t (cp, - 1, b, s))) = (if tr > t then t else tr)"
    unfolding tr_def x_def u_def v_def r_def r0_def s1_def by (rule refresh_item_f32_first(1))
  have seq: "rand_seq s1 = rand_seq s"
    unfolding s1_def by (rule retrieve_fields)
  have "r0 \<le> param_R P + \<bar>param_s P\<bar> * sqrt (2 * ln (real RAND_MAX + 1))"
    unfolding r0_def using rnd by (intro randomNormal_upper) (simp_all add: seq)
  then have r0B: "r0 \<le> B" unfolding B_def by simp
  have B10: "1 / 10 \<le> B" unfolding B_def by simp
  have r: "9 / 100 \<le> r" "r \<le> 2 * B"
    using rate_f32_bounds [OF r0B B10] unfolding r_def by simp_all
  have rpos: "0 < r" using r(1) by linarith
  have Bpos: "0 < B" using B10 by linarith
  have v: "4 * eps \<le> v" "v \<le> 1 - eps"
    using tau unfolding v_def eps_def by simp_all
  have av: "\<bar>1 - v\<bar> = 1 - v" using v eps by simp
  have m1: "(1 - v) * eps \<le> 1 * eps"
    using v eps by (intro mult_right_mono) simp_all
  have m2: "eps * (1 - eps) \<le> (1 - v) * (1 - eps)"
    using v eps by (intro mult_right_mono) simp_all
  have m3: "(1 - v) - ((1 - v) * eps + eta) = (1 - v) * (1 - eps) - eta"
    by (simp add: algebra_simps)
  have u_hi: "u \<le> 1 - v / 2"
    using hi [of "1 - v"] m1 v eta(2) unfolding u_def av by linarith
  have "eps * (1 - eps) - eta \<le> u"
    using lo [of "1 - v"] m2 unfolding u_def av m3 by linarith
  then have upos: "0 < u" using eta(3) by linarith
  have "ln u \<le> u - 1" using upos by (rule ln_le_minus_one)
  then have lnu: "v / 2 \<le> - ln u" using u_hi by linarith
  have vpos: "0 < v" using v eps by linarith
  have x_lo: "v / 2 / (2 * B) \<le> x"
    unfolding x_def using lnu r rpos vpos by (intro frac_le) simp_all
  have "1 / 2 ^ 22 / 2 / (2 * 2 ^ 100) \<le> v / 2 / (2 * B)"
    using v eps(3) B Bpos by (intro frac_le) simp_all
  then have x_big: "1 / 2 ^ 124 \<le> x" using x_lo by simp
  then have xpos: "0 < x" by (rule less_le_trans [rotated]) simp
  have ax: "\<bar>x\<bar> = x" using xpos by simp
  have "4 * eta \<le> x"
    using x_big unfolding eta(4) by (rule order_trans [rotated]) simp
  moreover have "x * eps \<le> x * (1 / 4)"
    using xpos eps by (intro mult_left_mono) simp_all
  ultimately have "x / 2 \<le> tr"
    using lo [of x] unfolding tr_def ax by linarith
  then have tr_lo: "v / (8 * B) \<le> tr"
    using x_lo by simp
  show "min (var_tauR s / (8 * B)) t \<le> fst (snd (refresh_item_f32 P lp t (cp, - 1, b, s)))"
    unfolding d using tr_lo unfolding v_def by auto
  show "fst (snd (refresh_item_f32 P lp t (cp, - 1, b, s))) \<le> t"
    unfolding d by auto
  have "1 / 2 ^ 22 / (8 * 2 ^ 100) \<le> v / (8 * B)"
    using v eps(3) B Bpos by (intro frac_le) simp_all
  then show "1 / 2 ^ 125 \<le> var_tauR s / (8 * B)"
    unfolding v_def by simp
qed

lemma refresh_loop_f32_stop:
  "\<not> 0 < t \<Longrightarrow> refresh_loop_f32 P lp (t, cp, b, s) = Some s"
  by (subst refresh_loop_f32.simps) simp

lemma refresh_loop_f32_step:
  assumes "0 < t"
  shows "refresh_loop_f32 P lp (t, cp, b, s) =
     (let w = refresh_window_f32 P lp t (nat (min_c (param_attentionalFocusSize P) (int lp))) (cp, - 1, b, s);
          d = fst (snd w)
      in refresh_loop_f32 P lp
           (if float32 (t - d) < 0 then 0 else float32 (t - d), fst w, fst (snd (snd w)), snd (snd (snd w))))"
  using assms by (subst refresh_loop_f32.simps) (simp add: split_beta Let_def)


lemma refresh_loop_f32_terminates:
  fixes P :: params and tau T0 :: real and rs :: "nat \<Rightarrow> nat"
  defines "B \<equiv> max (1 / 10) (param_R P + \<bar>param_s P\<bar> * sqrt (2 * ln (real RAND_MAX + 1)))"
  defines "dmin \<equiv> tau / (8 * B)"
  assumes lp: "1 \<le> lp" and afs: "1 \<le> param_attentionalFocusSize P"
    and tau: "1 / 2 ^ 22 \<le> tau" "tau \<le> 1 - 1 / 2 ^ 24"
    and rnd: "\<forall>k. 1 \<le> rs k \<and> rs k \<le> RAND_MAX"
    and B: "B \<le> 2 ^ 100"
    and T0: "T0 \<le> 2 ^ 23 * dmin"
  shows "t \<le> real n * (dmin / 4) \<Longrightarrow> t \<le> T0 \<Longrightarrow> var_tauR s = tau \<Longrightarrow> rand_seq s = rs \<Longrightarrow>
     \<exists>s'. refresh_loop_f32 P lp (t, cp, b, s) = Some s'"
proof (induction n arbitrary: t cp b s)
  case 0
  then have "\<not> 0 < t" by simp
  then show ?case by (simp add: refresh_loop_f32_stop)
next
  case (Suc n)
  show ?case
  proof (cases "0 < t")
    case False
    then show ?thesis by (simp add: refresh_loop_f32_stop)
  next
    case True
    have "1 \<le> min_c (param_attentionalFocusSize P) (int lp)"
      using lp afs by (simp add: min_c_def)
    then obtain m where m: "nat (min_c (param_attentionalFocusSize P) (int lp)) = Suc m"
      by (metis Suc_pred' zero_less_nat_eq less_le_trans zero_less_one)
    define w where "w = refresh_window_f32 P lp t (Suc m) (cp, - 1, b, s)"
    define d where "d = fst (snd (refresh_item_f32 P lp t (cp, - 1, b, s)))"
    define t1 where "t1 = (if float32 (t - d) < 0 then 0 else float32 (t - d))"
    define eps :: real where "eps = 1 / 2 ^ 24"
    define eta :: real where "eta = 1 / 2 ^ 150"
    have tau': "1 / 2 ^ 22 \<le> var_tauR s" "var_tauR s \<le> 1 - 1 / 2 ^ 24" using tau Suc.prems by simp_all
    have rnd': "\<forall>k. 1 \<le> rand_seq s k \<and> rand_seq s k \<le> RAND_MAX" using rnd Suc.prems by simp
    have lo: "min dmin t \<le> d" and hi: "d \<le> t"
      using refresh_item_f32_bounds(1,2) [OF tau' rnd' B [unfolded B_def] True, where lp = lp and cp = cp and b = b]
        Suc.prems
      unfolding d_def dmin_def B_def by simp_all
    have dm: "1 / 2 ^ 125 \<le> dmin"
      using refresh_item_f32_bounds(3) [OF tau' rnd' B [unfolded B_def] True] Suc.prems
      unfolding dmin_def B_def by simp
    have dpos: "0 < dmin" using dm by (rule less_le_trans [rotated]) simp
    have "0 < d" using lo dpos True by (simp add: min_def split: if_splits)
    then have "d \<noteq> - 1" by simp
    then have wd: "fst (snd w) = d" and wt: "var_tauR (snd (snd (snd w))) = tau"
      and wr: "rand_seq (snd (snd (snd w))) = rs"
      using refresh_window_f32_first [of P lp t cp b s m] Suc.prems unfolding w_def d_def by simp_all
    have next_t: "t1 \<le> real n * (dmin / 4) \<and> t1 \<le> T0"
    proof (cases "dmin \<le> t")
      case True
      then have dd: "dmin \<le> d" using lo by simp
      have nn: "\<bar>t - d\<bar> = t - d" using hi by simp
      have "float32 (t - d) \<le> t - d + ((t - d) * eps + eta)"
        using float32_bounds(2) [of "t - d"] unfolding nn eps_def eta_def by simp
      moreover have "(t - d) * eps \<le> (2 ^ 23 * dmin) * eps"
        using hi Suc.prems(2) T0 \<open>0 < d\<close> unfolding eps_def by (intro mult_right_mono) simp_all
      moreover have "(2 ^ 23 * dmin) * eps = dmin / 2"
        unfolding eps_def by simp
      moreover have "eta \<le> dmin / 4"
        using dm unfolding eta_def by simp
      ultimately have "float32 (t - d) \<le> t - dmin / 4"
        using dd by linarith
      moreover have "t - dmin / 4 \<le> real n * (dmin / 4)"
        using Suc.prems(1) by (simp add: algebra_simps)
      moreover have "0 \<le> real n * (dmin / 4)"
        using dpos by simp
      ultimately show ?thesis
        using Suc.prems(2) \<open>0 < t\<close> dpos unfolding t1_def by auto
    next
      case False
      then have "d = t" using lo hi by simp
      then have "t1 = 0" unfolding t1_def by simp
      moreover have "0 \<le> real n * (dmin / 4)"
        using dpos by simp
      ultimately show ?thesis using Suc.prems(2) \<open>0 < t\<close> by simp
    qed
    show ?thesis
      unfolding refresh_loop_f32_step [OF True] m w_def [symmetric] Let_def wd t1_def [symmetric]
      using next_t by (intro Suc.IH [OF _ _ wt wr]) simp_all
  qed
qed

lemma refresh_loop_f32_diverges:
  assumes lp: "1 \<le> lp" and afs: "1 \<le> param_attentionalFocusSize P"
    and t: "0 < t" "float32 t = t" and tau: "float32 (1 - var_tauR s) = 1"
  shows "refresh_loop_f32 P lp (t, cp, b, s) = None"
proof -
  let ?Q = "\<lambda>(x :: (params \<times> nat) \<times> real \<times> nat \<times> nat \<times> state) (y :: state).
      \<not> (1 \<le> snd (fst x) \<and> 1 \<le> param_attentionalFocusSize (fst (fst x)) \<and>
            0 < fst (snd x) \<and> float32 (fst (snd x)) = fst (snd x) \<and>
            float32 (1 - var_tauR (snd (snd (snd (snd x))))) = 1)"
  have never: "?Q ((P, lp), v) y" if run: "refresh_loop_f32 P lp v = Some y" for P lp v y
  proof (rule refresh_loop_f32.raw_induct [where Pa = ?Q, OF _ run])
    fix f :: "params \<Rightarrow> nat \<Rightarrow> real \<times> nat \<times> nat \<times> state \<Rightarrow> state option"
      and P lp v y
    assume IH: "\<And>P lp v y. f P lp v = Some y \<Longrightarrow> ?Q ((P, lp), v) y"
      and body: "(case v of (timeAvailable, currentPosition, best, s) \<Rightarrow>
        if 0 < timeAvailable
        then case refresh_window_f32 P lp timeAvailable
                   (nat (min_c (param_attentionalFocusSize P) (int lp)))
                   (currentPosition, - 1, best, s) of
             (cpi, reencodingDuration, best', s') \<Rightarrow>
               f P lp
                (if float32 (timeAvailable - reencodingDuration) < 0 then 0
                 else float32 (timeAvailable - reencodingDuration),
                 cpi, best', s')
        else Some s) = Some y"
    obtain t cp b s where v: "v = (t, cp, b, s)" by (cases v) auto
    show "?Q ((P, lp), v) y"
    proof
      assume "1 \<le> snd (fst ((P, lp), v)) \<and> 1 \<le> param_attentionalFocusSize (fst (fst ((P, lp), v))) \<and>
            0 < fst (snd ((P, lp), v)) \<and> float32 (fst (snd ((P, lp), v))) = fst (snd ((P, lp), v)) \<and>
            float32 (1 - var_tauR (snd (snd (snd (snd ((P, lp), v)))))) = 1"
      then have lp: "1 \<le> lp" and afs: "1 \<le> param_attentionalFocusSize P" and t: "0 < t"
        and ft: "float32 t = t" and tau: "float32 (1 - var_tauR s) = 1"
        unfolding v by simp_all
      have "1 \<le> min_c (param_attentionalFocusSize P) (int lp)"
        using lp afs by (simp add: min_c_def)
      then obtain m where m: "nat (min_c (param_attentionalFocusSize P) (int lp)) = Suc m"
        by (metis Suc_pred' zero_less_nat_eq less_le_trans zero_less_one)
      define w where "w = refresh_window_f32 P lp t (Suc m) (cp, - 1, b, s)"
      have d0: "fst (snd (refresh_item_f32 P lp t (cp, - 1, b, s))) = 0"
        using t by (simp add: refresh_item_f32_first(1) tau)
      then have wd: "fst (snd w) = 0" and wt: "var_tauR (snd (snd (snd w))) = var_tauR s"
        using refresh_window_f32_first [of P lp t cp b s m] unfolding w_def by simp_all
      have "f P lp (t, fst w, fst (snd (snd w)), snd (snd (snd w))) = Some y"
        using body t ft unfolding v prod.case m w_def [symmetric]
        by (simp add: split_beta wd)
      from IH [OF this] show False
        using lp afs t ft tau wt by simp
    qed
  qed
  have "refresh_loop_f32 P lp (t, cp, b, s) \<noteq> Some y" for y
    using never [of P lp "(t, cp, b, s)" y] assms by auto
  then show ?thesis by (cases "refresh_loop_f32 P lp (t, cp, b, s)") auto
qed


text \<open>
  C10 (corrected).  The claim: for every time budget and every lastPosition >= 1 the
  refresh loop terminates, because each pass takes a strictly positive duration.  The floor
  on the sampled rate bounds the duration from above only: the duration is the binary32
  value of -ln(1 - var_tauR) / rate, where 1 - var_tauR is a binary32 difference, and it is
  0 when that difference is 1 (var_tauR = 0, the command line value Tr = 0, and also small
  positive values of var_tauR); then the remaining time never decreases and the loop never
  ends.  A duration that is small against the remaining time is lost in the binary32
  subtraction as well.  What holds, for B the largest rate that can be drawn: with a
  lastPosition >= 1, an attentional focus of at least one item, rand() returning values in
  1..RAND_MAX (for the draw 0 the C expression is infinite), 2^-22 <= var_tauR <= 1 - 2^-24,
  B <= 2^100 and a time budget of at most 2^20 * var_tauR / B, refresh returns.  In every
  window the duration is computed on the first item, is strictly positive and at most the
  remaining time, and is the duration of the whole window; a pass replaces the remaining time
  t by the binary32 value of t minus that duration (0 if negative); the loop returns at once
  when the remaining time is not strictly positive; and it never returns from a positive
  binary32 remaining time when the binary32 value of 1 - var_tauR is 1.
\<close>

theorem refresh_f32_terminates_within_bounds:
  fixes P :: params and s :: state and timeAvailable :: real and lastPosition :: nat
  defines "B \<equiv> max (1 / 10) (param_R P + \<bar>param_s P\<bar> * sqrt (2 * ln (real RAND_MAX + 1)))"
  assumes "1 \<le> lastPosition" and "1 \<le> param_attentionalFocusSize P"
    and "1 / 2 ^ 22 \<le> var_tauR s" and "var_tauR s \<le> 1 - 1 / 2 ^ 24"
    and "\<forall>k. 1 \<le> rand_seq s k \<and> rand_seq s k \<le> RAND_MAX"
    and "B \<le> 2 ^ 100"
    and "timeAvailable \<le> 2 ^ 20 * var_tauR s / B"
  shows "(\<exists>s'. refresh_f32 P timeAvailable lastPosition s = Some s') \<and>
    (\<forall>t n cp b s0. 0 < t \<and> var_tauR s0 = var_tauR s \<and> rand_seq s0 = rand_seq s \<longrightarrow>
       0 < fst (snd (refresh_item_f32 P lastPosition t (cp, - 1, b, s0))) \<and>
       fst (snd (refresh_item_f32 P lastPosition t (cp, - 1, b, s0))) \<le> t \<and>
       fst (snd (refresh_window_f32 P lastPosition t (Suc n) (cp, - 1, b, s0))) =
         fst (snd (refresh_item_f32 P lastPosition t (cp, - 1, b, s0)))) \<and>
    (\<forall>t cp b s0. 0 < t \<longrightarrow>
       refresh_loop_f32 P lastPosition (t, cp, b, s0) =
         (let w = refresh_window_f32 P lastPosition t
                    (nat (min_c (param_attentionalFocusSize P) (int lastPosition))) (cp, - 1, b, s0);
              d = fst (snd w)
          in refresh_loop_f32 P lastPosition
               (if float32 (t - d) < 0 then 0 else float32 (t - d),
                fst w, fst (snd (snd w)), snd (snd (snd w))))) \<and>
    (\<forall>t cp b s0. \<not> 0 < t \<longrightarrow> refresh_loop_f32 P lastPosition (t, cp, b, s0) = Some s0) \<and>
    (\<forall>t cp b s0. 0 < t \<and> float32 t = t \<and> float32 (1 - var_tauR s0) = 1 \<longrightarrow>
       refresh_loop_f32 P lastPosition (t, cp, b, s0) = None)"
proof (intro conjI allI impI)
  define dmin where "dmin = var_tauR s / (8 * B)"
  have dm: "1 / 2 ^ 125 \<le> dmin"
    using refresh_item_f32_bounds(3) [OF assms(4,5,6) assms(7) [unfolded B_def], where t = 1]
    unfolding dmin_def B_def by simp
  have dl: "0 < dmin / 4" using dm by (simp add: less_le_trans [rotated])
  define n where "n = nat \<lceil>timeAvailable / (dmin / 4)\<rceil>"
  have "timeAvailable / (dmin / 4) \<le> real n"
    unfolding n_def by linarith
  then have "timeAvailable / (dmin / 4) * (dmin / 4) \<le> real n * (dmin / 4)"
    using dl by (intro mult_right_mono) simp_all
  moreover have "timeAvailable / (dmin / 4) * (dmin / 4) = timeAvailable"
    using dl by simp
  ultimately have n: "timeAvailable \<le> real n * (dmin / 4)"
    by simp
  have T0: "timeAvailable \<le> 2 ^ 23 * dmin"
    using assms(8) unfolding dmin_def by simp
  show "\<exists>s'. refresh_f32 P timeAvailable lastPosition s = Some s'"
    unfolding refresh_f32_def
    using refresh_loop_f32_terminates [OF assms(2,3,4,5,6) assms(7) [unfolded B_def]
        T0 [unfolded dmin_def B_def] n [unfolded dmin_def B_def] order_refl refl refl]
    by blast
next
  fix t :: real and n cp b :: nat and s0 :: state
  assume a: "0 < t \<and> var_tauR s0 = var_tauR s \<and> rand_seq s0 = rand_seq s"
  then have tau: "1 / 2 ^ 22 \<le> var_tauR s0" "var_tauR s0 \<le> 1 - 1 / 2 ^ 24"
    and rnd: "\<forall>k. 1 \<le> rand_seq s0 k \<and> rand_seq s0 k \<le> RAND_MAX" and t: "0 < t"
    using assms by simp_all
  define dm where "dm = var_tauR s0 /
        (8 * max (1 / 10) (param_R P + \<bar>param_s P\<bar> * sqrt (2 * ln (real RAND_MAX + 1))))"
  have lo: "min dm t \<le> fst (snd (refresh_item_f32 P lastPosition t (cp, - 1, b, s0)))"
    unfolding dm_def by (rule refresh_item_f32_bounds(1) [OF tau rnd assms(7) [unfolded B_def] t])
  have delta: "1 / 2 ^ 125 \<le> dm"
    unfolding dm_def by (rule refresh_item_f32_bounds(3) [OF tau rnd assms(7) [unfolded B_def] t])
  have "0 < dm"
    by (rule less_le_trans [OF _ delta]) simp
  then show pos: "0 < fst (snd (refresh_item_f32 P lastPosition t (cp, - 1, b, s0)))"
    using lo t by (simp add: min_def split: if_splits)
  show "fst (snd (refresh_item_f32 P lastPosition t (cp, - 1, b, s0))) \<le> t"
    by (rule refresh_item_f32_bounds(2) [OF tau rnd assms(7) [unfolded B_def] t])
  show "fst (snd (refresh_window_f32 P lastPosition t (Suc n) (cp, - 1, b, s0))) =
         fst (snd (refresh_item_f32 P lastPosition t (cp, - 1, b, s0)))"
    using pos by (intro refresh_window_f32_first(1)) simp
next
  fix t :: real and cp b :: nat and s0 :: state
  assume "0 < t"
  then show "refresh_loop_f32 P lastPosition (t, cp, b, s0) =
         (let w = refresh_window_f32 P lastPosition t
                    (nat (min_c (param_attentionalFocusSize P) (int lastPosition))) (cp, - 1, b, s0);
              d = fst (snd w)
          in refresh_loop_f32 P lastPosition
               (if float32 (t - d) < 0 then 0 else float32 (t - d),
                fst w, fst (snd (snd w)), snd (snd (snd w))))"
    by (rule refresh_loop_f32_step)
next
  fix t :: real and cp b :: nat and s0 :: state
  assume "\<not> 0 < t"
  then show "refresh_loop_f32 P lastPosition (t, cp, b, s0) = Some s0"
    by (rule refresh_loop_f32_stop)
next
  fix t :: real and cp b :: nat and s0 :: state
  assume "0 < t \<and> float32 t = t \<and> float32 (1 - var_tauR s0) = 1"
  then show "refresh_loop_f32 P lastPosition (t, cp, b, s0) = None"
    using assms(2,3) by (intro refresh_loop_f32_diverges) simp_all
qed

lemma default_rate_bound:
  "max (1 / 10) (param_R default_params + \<bar>param_s default_params\<bar> * sqrt (2 * ln (real RAND_MAX + 1))) \<le> 14"
proof -
  have "real RAND_MAX + 1 = 2 ^ 31"
    by (simp add: RAND_MAX_def)
  then have "ln (real RAND_MAX + 1) = real 31 * ln 2"
    by (simp only: ln_realpow [of "2::real" 31])
  moreover have "real 31 * ln 2 \<le> real 31 * 1"
    using ln_2_less_1 by (intro mult_left_mono) simp_all
  ultimately have "2 * ln (real RAND_MAX + 1) \<le> 8\<^sup>2" by simp
  then have "sqrt (2 * ln (real RAND_MAX + 1)) \<le> 8"
    by (intro real_le_lsqrt) simp_all
  then show ?thesis by (simp add: default_params_def)
qed

lemma default_tauR_bounds:
  "3 / 10 \<le> var_tauR (main_model_variables default_params blank_state)"
  "var_tauR (main_model_variables default_params blank_state) \<le> 1 / 2"
proof -
  have tau: "var_tauR (main_model_variables default_params blank_state) = 1 - exp (- (48 / 100))"
    by (simp add: main_model_variables_def default_params_def)
  have "1 + 48 / 100 \<le> exp (48 / 100 :: real)" by (rule exp_ge_add_one_self)
  then have "exp (- (48 / 100) :: real) \<le> 1 / (1 + 48 / 100)"
    unfolding exp_minus by (simp add: field_simps)
  then show "3 / 10 \<le> var_tauR (main_model_variables default_params blank_state)"
    unfolding tau by simp
  have "1 + - (48 / 100) \<le> exp (- (48 / 100) :: real)" by (rule exp_ge_add_one_self)
  then show "var_tauR (main_model_variables default_params blank_state) \<le> 1 / 2"
    unfolding tau by simp
qed

theorem refresh_f32_terminates_within_bounds_witness:
  "\<exists>s'. refresh_f32 default_params (3 / 2) 1 (main_model_variables default_params blank_state) = Some s'"
proof -
  let ?s = "main_model_variables default_params blank_state"
  let ?B = "max (1 / 10) (param_R default_params +
      \<bar>param_s default_params\<bar> * sqrt (2 * ln (real RAND_MAX + 1)))"
  have 1: "(1::nat) \<le> 1" by simp
  have 2: "1 \<le> param_attentionalFocusSize default_params" by (simp add: default_params_def)
  have 3: "1 / 2 ^ 22 \<le> var_tauR ?s"
    using default_tauR_bounds(1) by (rule order_trans [rotated]) simp
  have 4: "var_tauR ?s \<le> 1 - 1 / 2 ^ 24"
    using default_tauR_bounds(2) by (rule order_trans) simp
  have 5: "\<forall>k. 1 \<le> rand_seq ?s k \<and> rand_seq ?s k \<le> RAND_MAX"
    by (simp add: main_model_variables_def blank_state_def RAND_MAX_def)
  have 6: "?B \<le> 2 ^ 100"
    using default_rate_bound by (rule order_trans) simp
  have Bpos: "0 < ?B" by simp
  have "3 / 10 / 14 \<le> var_tauR ?s / ?B"
    using default_tauR_bounds(1) default_rate_bound Bpos by (intro frac_le) simp_all
  then have "2 ^ 20 * (3 / 10 / 14) \<le> 2 ^ 20 * (var_tauR ?s / ?B)"
    by (intro mult_left_mono) simp_all
  then have 7: "3 / 2 \<le> 2 ^ 20 * var_tauR ?s / ?B"
    by simp
  from refresh_f32_terminates_within_bounds [OF 1 2 3 4 5 6 7]
  show ?thesis by blast
qed

theorem refresh_f32_zero_duration_counterexample:
  "refresh_f32 (default_params\<lparr>param_Tr := 0\<rparr>) 1 1
     (main_model_variables (default_params\<lparr>param_Tr := 0\<rparr>) blank_state) = None \<and>
   0 < var_tauR (blank_state\<lparr>var_tauR := 1 / 2 ^ 26\<rparr>) \<and>
   refresh_f32 default_params 1 1 (blank_state\<lparr>var_tauR := 1 / 2 ^ 26\<rparr>) = None"
proof (intro conjI)
  show "refresh_f32 (default_params\<lparr>param_Tr := 0\<rparr>) 1 1
     (main_model_variables (default_params\<lparr>param_Tr := 0\<rparr>) blank_state) = None"
    unfolding refresh_f32_def
    by (rule refresh_loop_f32_diverges)
      (simp_all add: default_params_def main_model_variables_def)
  show "0 < var_tauR (blank_state\<lparr>var_tauR := 1 / 2 ^ 26\<rparr>)" by simp
  have tau: "float32 (1 - var_tauR (blank_state\<lparr>var_tauR := 1 / 2 ^ 26\<rparr>)) = 1"
    using float32_below_one by simp
  show "refresh_f32 default_params 1 1 (blank_state\<lparr>var_tauR := 1 / 2 ^ 26\<rparr>) = None"
    unfolding refresh_f32_def
    by (rule refresh_loop_f32_diverges [OF _ _ _ _ tau])
      (simp_all add: default_params_def)
qed

section \<open>Item representations and the command line\<close>

lemma cell_inj:
  assumes "j \<le> nbItemUnits" "j' \<le> nbItemUnits" "cell i j = cell i' j'"
  shows "i = i' \<and> j = j'"
proof -
  have eq: "i * 101 + j = i' * 101 + j'" and j: "j \<le> 100" "j' \<le> 100"
    using assms by (simp_all add: cell_def nbItemUnits_def)
  have "i = i'"
  proof (rule ccontr)
    assume "i \<noteq> i'"
    then consider "i < i'" | "i' < i" by linarith
    then show False
    proof cases
      case 1
      then have "i * 101 + 101 \<le> i' * 101" by simp
      then show False using eq j by simp
    next
      case 2
      then have "i' * 101 + 101 \<le> i * 101" by simp
      then show False using eq j by simp
    qed
  qed
  then show ?thesis using eq by simp
qed

lemma flat_fold_other:
  fixes m :: "nat \<Rightarrow> real"
  assumes "\<And>j. a0 \<le> j \<Longrightarrow> j < b \<Longrightarrow> a \<noteq> f j"
  shows "fold (\<lambda>j m. m(f j := g j)) [a0..<b] m a = m a"
  using assms
proof (induction b)
  case 0
  then show ?case by simp
next
  case (Suc b)
  show ?case
  proof (cases "a0 \<le> b")
    case False
    then show ?thesis by simp
  next
    case True
    define M where "M = fold (\<lambda>j m. m(f j := g j)) [a0..<b] m"
    have "M a = m a" unfolding M_def using Suc.prems by (intro Suc.IH) simp_all
    moreover have "a \<noteq> f b" using Suc.prems True by simp
    ultimately show ?thesis
      unfolding upt_Suc_append [OF True] fold_append comp_apply M_def [symmetric] by simp
  qed
qed

lemma flat_fold_hit:
  fixes m :: "nat \<Rightarrow> real"
  assumes inj: "\<And>j j'. f j = f j' \<Longrightarrow> j = j'" and k: "a0 \<le> k" "k < b"
  shows "fold (\<lambda>j m. m(f j := g j)) [a0..<b] m (f k) = g k"
  using k
proof (induction b)
  case 0
  then show ?case by simp
next
  case (Suc b)
  have True: "a0 \<le> b" using Suc.prems by simp
  define M where "M = fold (\<lambda>j m. m(f j := g j)) [a0..<b] m"
  show ?case
  proof (cases "k = b")
    case True
    then show ?thesis
      unfolding upt_Suc_append [OF \<open>a0 \<le> b\<close>] fold_append comp_apply by simp
  next
    case False
    then have "k < b" using Suc.prems by simp
    then have "M (f k) = g k" unfolding M_def using Suc.prems by (intro Suc.IH) simp_all
    moreover have "f k \<noteq> f b" using inj False by blast
    ultimately show ?thesis
      unfolding upt_Suc_append [OF \<open>a0 \<le> b\<close>] fold_append comp_apply M_def [symmetric] by simp
  qed
qed

lemma cell_cols_inj: "cell i j = cell i j' \<Longrightarrow> j = j'"
  by (simp add: cell_def)

lemma fill_row_hit:
  "1 \<le> j \<Longrightarrow> j \<le> nbItemUnits \<Longrightarrow> fill_row i v m (cell i j) = v"
  unfolding fill_row_def
  by (intro flat_fold_hit [where f = "cell i", OF cell_cols_inj]) simp_all

lemma fill_row_other:
  "(\<And>j. 1 \<le> j \<Longrightarrow> j \<le> nbItemUnits \<Longrightarrow> a \<noteq> cell i j) \<Longrightarrow> fill_row i v m a = m a"
  unfolding fill_row_def
  by (intro flat_fold_other) simp_all

lemma createRandomPattern_fold:
  fixes pt :: pattern_mem
  defines "step \<equiv> (\<lambda>i (acc :: pattern_mem \<times> state). case acc of (pt, s) \<Rightarrow>
         (let (r, s') = rand s in (set_pattern i (uniform01 r) pt, s')))"
  shows "fst (fst (fold step [mn..<b] (pt, s))) k =
           (if mn \<le> k \<and> k < b then uniform01 (rand_seq s (rand_calls s + (k - mn))) else fst pt k) \<and>
         snd (fold step [mn..<b] (pt, s)) = s\<lparr>rand_calls := rand_calls s + (b - mn)\<rparr>"
proof (induction b)
  case 0
  then show ?case by simp
next
  case (Suc b)
  show ?case
  proof (cases "mn \<le> b")
    case False
    then show ?thesis by simp
  next
    case True
    define mid where "mid = fold step [mn..<b] (pt, s)"
    have m1: "fst (fst mid) k =
        (if mn \<le> k \<and> k < b then uniform01 (rand_seq s (rand_calls s + (k - mn))) else fst pt k)"
      and m2: "snd mid = s\<lparr>rand_calls := rand_calls s + (b - mn)\<rparr>"
      using Suc unfolding mid_def by simp_all
    have st: "fold step [mn..<Suc b] (pt, s) = step b (fst mid, snd mid)"
      unfolding upt_Suc_append [OF True] fold_append comp_apply mid_def by simp
    have "step b (fst mid, snd mid) =
        (set_pattern b (uniform01 (rand_seq s (rand_calls s + (b - mn)))) (fst mid),
         s\<lparr>rand_calls := rand_calls s + (Suc b - mn)\<rparr>)"
      using True by (simp add: step_def rand_def m2 Suc_diff_le)
    then show ?thesis
      unfolding st using m1 True by (auto simp: set_pattern_simps less_Suc_eq)
  qed
qed

lemma createRandomPattern_apply:
  "fst (fst (createRandomPattern mn mx (pt, s))) k =
     (if mn \<le> k \<and> k \<le> mx then uniform01 (rand_seq s (rand_calls s + (k - mn))) else fst pt k)"
  "snd (createRandomPattern mn mx (pt, s)) = s\<lparr>rand_calls := rand_calls s + (mx + 1 - mn)\<rparr>"
  using createRandomPattern_fold [of mn "mx + 1" pt s k]
  unfolding createRandomPattern_def by (auto simp: less_Suc_eq_le)

lemma memorandum_row_state:
  "snd (memorandum_row P i (m, s)) =
     (if PRESET P = 0 then s\<lparr>rand_calls := rand_calls s + nbItemUnits\<rparr> else s)"
  by (simp add: memorandum_row_def Let_def split_beta createRandomPattern_apply)

lemma memorandum_row_hit:
  assumes j: "1 \<le> j" "j \<le> nbItemUnits"
  shows "fst (memorandum_row P i (m, s)) (cell i j) =
     (if PRESET P = 0 then uniform01 (rand_seq s (rand_calls s + (j - 1)))
      else embeddingsList s (i - 1) (j - 1))"
proof (cases "PRESET P = 0")
  case True
  define m1 where "m1 = fill_row i (- 1) m"
  have res: "fst (memorandum_row P i (m, s)) a =
      (if cell i 0 \<le> a
       then fst (fst (createRandomPattern 1 nbItemUnits ((\<lambda>j. m1 (cell i 0 + j), []), s))) (a - cell i 0)
       else m1 a)" for a
    using True by (simp add: memorandum_row_def Let_def split_beta m1_def)
  have "cell i j - cell i 0 = j" "cell i 0 \<le> cell i j"
    by (simp_all add: cell_def)
  then show ?thesis
    unfolding res createRandomPattern_apply using j True by simp
next
  case False
  have res: "fst (memorandum_row P i (m, s)) =
      fold (\<lambda>jj m. m(cell i jj := embeddingsList s (i - 1) (jj - 1))) [1..<nbItemUnits + 1]
        (fill_row i (- 1) m)"
    using False by (simp add: memorandum_row_def Let_def)
  have "fold (\<lambda>jj m. m(cell i jj := embeddingsList s (i - 1) (jj - 1))) [1..<nbItemUnits + 1]
        (fill_row i (- 1) m) (cell i j) = embeddingsList s (i - 1) (j - 1)"
    using j by (intro flat_fold_hit [where f = "cell i", OF cell_cols_inj]) simp_all
  then show ?thesis unfolding res using False by simp
qed

lemma memorandum_row_other:
  assumes other: "\<And>j. 1 \<le> j \<Longrightarrow> j \<le> nbItemUnits \<Longrightarrow> a \<noteq> cell i j"
  shows "fst (memorandum_row P i (m, s)) a = m a"
proof (cases "PRESET P = 0")
  case True
  define m1 where "m1 = fill_row i (- 1) m"
  have res: "fst (memorandum_row P i (m, s)) a =
      (if cell i 0 \<le> a
       then fst (fst (createRandomPattern 1 nbItemUnits ((\<lambda>j. m1 (cell i 0 + j), []), s))) (a - cell i 0)
       else m1 a)"
    using True by (simp add: memorandum_row_def Let_def split_beta m1_def)
  have m1: "m1 a = m a" unfolding m1_def using other by (rule fill_row_other)
  show ?thesis
  proof (cases "cell i 0 \<le> a")
    case False
    then show ?thesis unfolding res using m1 by simp
  next
    case le: True
    have a: "a = cell i (a - cell i 0)" using le by (simp add: cell_def)
    have "\<not> (1 \<le> a - cell i 0 \<and> a - cell i 0 \<le> nbItemUnits)"
      using other [of "a - cell i 0"] a by auto
    moreover have "cell i 0 + (a - cell i 0) = a" using le by simp
    ultimately show ?thesis
      unfolding res createRandomPattern_apply using le m1 by auto
  qed
next
  case False
  have res: "fst (memorandum_row P i (m, s)) =
      fold (\<lambda>jj m. m(cell i jj := embeddingsList s (i - 1) (jj - 1))) [1..<nbItemUnits + 1]
        (fill_row i (- 1) m)"
    using False by (simp add: memorandum_row_def Let_def)
  have "fold (\<lambda>jj m. m(cell i jj := embeddingsList s (i - 1) (jj - 1))) [1..<nbItemUnits + 1]
        (fill_row i (- 1) m) a = fill_row i (- 1) m a"
    using other by (intro flat_fold_other) simp_all
  also have "\<dots> = m a" using other by (rule fill_row_other)
  finally show ?thesis unfolding res .
qed

lemma memoranda_fold:
  fixes P m s b
  defines "acc \<equiv> fold (memorandum_row P) [1..<b] (m, s)"
  shows "snd acc = (if PRESET P = 0 then s\<lparr>rand_calls := rand_calls s + (b - 1) * nbItemUnits\<rparr> else s)"
    and "1 \<le> i \<Longrightarrow> i < b \<Longrightarrow> 1 \<le> j \<Longrightarrow> j \<le> nbItemUnits \<Longrightarrow>
      fst acc (cell i j) =
        (if PRESET P = 0 then uniform01 (rand_seq s (rand_calls s + (i - 1) * nbItemUnits + (j - 1)))
         else embeddingsList s (i - 1) (j - 1))"
proof -
  have "snd (fold (memorandum_row P) [1..<b] (m, s)) =
      (if PRESET P = 0 then s\<lparr>rand_calls := rand_calls s + (b - 1) * nbItemUnits\<rparr> else s) \<and>
    (\<forall>i j. 1 \<le> i \<and> i < b \<and> 1 \<le> j \<and> j \<le> nbItemUnits \<longrightarrow>
      fst (fold (memorandum_row P) [1..<b] (m, s)) (cell i j) =
        (if PRESET P = 0 then uniform01 (rand_seq s (rand_calls s + (i - 1) * nbItemUnits + (j - 1)))
         else embeddingsList s (i - 1) (j - 1)))"
  proof (induction b)
    case 0
    then show ?case by simp
  next
    case (Suc b)
    show ?case
    proof (cases "1 \<le> b")
      case False
      then show ?thesis by simp
    next
      case True
      define mid where "mid = fold (memorandum_row P) [1..<b] (m, s)"
      have ms: "snd mid = (if PRESET P = 0 then s\<lparr>rand_calls := rand_calls s + (b - 1) * nbItemUnits\<rparr> else s)"
        and mv: "\<And>i j. 1 \<le> i \<Longrightarrow> i < b \<Longrightarrow> 1 \<le> j \<Longrightarrow> j \<le> nbItemUnits \<Longrightarrow>
          fst mid (cell i j) =
            (if PRESET P = 0 then uniform01 (rand_seq s (rand_calls s + (i - 1) * nbItemUnits + (j - 1)))
             else embeddingsList s (i - 1) (j - 1))"
        using Suc unfolding mid_def by simp_all
      have st: "fold (memorandum_row P) [1..<Suc b] (m, s) = memorandum_row P b (fst mid, snd mid)"
        unfolding upt_Suc_append [OF True] fold_append comp_apply mid_def by simp
      have "b - 1 + 1 = b" using True by simp
      then have "(b - 1) * nbItemUnits + nbItemUnits = b * nbItemUnits"
        by (metis add.commute mult_Suc Suc_eq_plus1)
      then have s': "snd (memorandum_row P b (fst mid, snd mid)) =
          (if PRESET P = 0 then s\<lparr>rand_calls := rand_calls s + (Suc b - 1) * nbItemUnits\<rparr> else s)"
        unfolding memorandum_row_state ms by (simp add: add.assoc)
      have v': "fst (memorandum_row P b (fst mid, snd mid)) (cell i j) =
            (if PRESET P = 0 then uniform01 (rand_seq s (rand_calls s + (i - 1) * nbItemUnits + (j - 1)))
             else embeddingsList s (i - 1) (j - 1))"
        if ij: "1 \<le> i" "i < Suc b" "1 \<le> j" "j \<le> nbItemUnits" for i j
      proof (cases "i = b")
        case True
        show ?thesis
          unfolding True memorandum_row_hit [OF ij(3,4)] ms by simp
      next
        case False
        have "cell i j \<noteq> cell b j'" if "1 \<le> j'" "j' \<le> nbItemUnits" for j'
          using cell_inj [of j j' i b] ij that False by blast
        then have "fst (memorandum_row P b (fst mid, snd mid)) (cell i j) = fst mid (cell i j)"
          by (intro memorandum_row_other) simp
        then show ?thesis using mv [of i j] ij False by simp
      qed
      show ?thesis unfolding st using s' v' by blast
    qed
  qed
  then show "snd acc = (if PRESET P = 0 then s\<lparr>rand_calls := rand_calls s + (b - 1) * nbItemUnits\<rparr> else s)"
    and "1 \<le> i \<Longrightarrow> i < b \<Longrightarrow> 1 \<le> j \<Longrightarrow> j \<le> nbItemUnits \<Longrightarrow>
      fst acc (cell i j) =
        (if PRESET P = 0 then uniform01 (rand_seq s (rand_calls s + (i - 1) * nbItemUnits + (j - 1)))
         else embeddingsList s (i - 1) (j - 1))"
    unfolding acc_def by simp_all
qed

lemma fill_rows_below:
  assumes "i < a" "j \<le> nbItemUnits"
  shows "fold (\<lambda>i. fill_row i v) [a..<b] m (cell i j) = m (cell i j)"
proof (induction b)
  case 0
  then show ?case by simp
next
  case (Suc b)
  show ?case
  proof (cases "a \<le> b")
    case False
    then show ?thesis by simp
  next
    case True
    have "cell i j \<noteq> cell b j'" if "1 \<le> j'" "j' \<le> nbItemUnits" for j'
      using cell_inj [of j j' i b] assms that True by auto
    then have "fill_row b v (fold (\<lambda>i. fill_row i v) [a..<b] m) (cell i j) =
        fold (\<lambda>i. fill_row i v) [a..<b] m (cell i j)"
      by (intro fill_row_other) simp
    then show ?thesis
      unfolding upt_Suc_append [OF True] fold_append comp_apply using Suc by simp
  qed
qed

lemma generateItemRepresentations_memoranda:
  assumes "1 \<le> i" "i \<le> maxMemoranda" "1 \<le> j" "j \<le> nbItemUnits"
  shows "fst (generateItemRepresentations P (m, s)) (cell i j) =
     (if PRESET P = 0 then uniform01 (rand_seq s (rand_calls s + (i - 1) * nbItemUnits + (j - 1)))
      else embeddingsList s (i - 1) (j - 1))"
proof -
  define acc where "acc = fold (memorandum_row P) [1..<maxMemoranda + 1] (m, s)"
  have res: "fst (generateItemRepresentations P (m, s)) =
      fold (\<lambda>i. fill_row i (- 1)) [maxMemoranda + 1..<maxItem + 1] (fst acc)"
    unfolding generateItemRepresentations_def acc_def [symmetric] by (simp add: split_beta)
  have "fst (generateItemRepresentations P (m, s)) (cell i j) = fst acc (cell i j)"
    unfolding res using assms by (intro fill_rows_below) simp_all
  also have "\<dots> = (if PRESET P = 0 then uniform01 (rand_seq s (rand_calls s + (i - 1) * nbItemUnits + (j - 1)))
      else embeddingsList s (i - 1) (j - 1))"
    unfolding acc_def using assms by (intro memoranda_fold(2)) simp_all
  finally show ?thesis .
qed

lemma uniform01_range: "r \<le> RAND_MAX \<Longrightarrow> 0 \<le> uniform01 r \<and> uniform01 r < 1"
  by (simp add: uniform01_def)

lemma option_value_PRESET:
  "option_value atoi atof a v (P, n) = Some (P', n') \<Longrightarrow> PRESET P' = PRESET P"
  by (auto simp: option_value_def split: if_splits)

lemma analyze_command_line_PRESET:
  "analyze_command_line atoi atof args acc = Inr acc' \<Longrightarrow> PRESET (fst acc') = PRESET (fst acc)"
proof (induction atoi atof args acc rule: analyze_command_line.induct)
  case (1 atoi atof acc)
  then show ?case by simp
next
  case (2 atoi atof a acc)
  then show ?case by (auto split: if_splits option.splits)
next
  case (3 atoi atof a v rest acc)
  show ?case
  proof (cases "a = ''?'' \<or> a = ''-v'' \<or> a = ''-q''")
    case True
    then show ?thesis using 3 by (auto split: if_splits)
  next
    case False
    then obtain P' n' where ov: "option_value atoi atof a v acc = Some (P', n')"
      using 3(4) by (auto split: option.splits)
    have "PRESET P' = PRESET (fst acc)"
      using option_value_PRESET [of atoi atof a v "fst acc" "snd acc" P' n'] ov by simp
    moreover have "PRESET (fst acc') = PRESET (fst (P', n'))"
      using 3(3) [of "(P', n')"] 3(4) False ov by simp
    ultimately show ?thesis by simp
  qed
qed

text \<open>
  C8 (corrected).  The claim: the embedding source is optional, the table being used only
  when a configuration flag selects it.  In the code generateItemRepresentations does fill
  each memorandum's vector with uniform draws (values in [0,1) for rand() in 0..RAND_MAX) when
  the flag PRESET is 0, and copies row i-1 of the table otherwise.  But PRESET is initialised
  to 1 and the command line analysis never changes it, and main opens the embeddings file
  before anything else and returns when it cannot be opened, whatever the flag: the
  embedding source is required.
\<close>

theorem item_vectors_random_or_preset_file_required:
  "(PRESET P = 0 \<longrightarrow>
      (\<forall>i\<in>{1..maxMemoranda}. \<forall>j\<in>{1..nbItemUnits}.
         fst (generateItemRepresentations P (m, s)) (cell i j) =
           uniform01 (rand_seq s (rand_calls s + (i - 1) * nbItemUnits + (j - 1))))) \<and>
   (\<forall>r\<le>RAND_MAX. 0 \<le> uniform01 r \<and> uniform01 r < 1) \<and>
   (PRESET P \<noteq> 0 \<longrightarrow>
      (\<forall>i\<in>{1..maxMemoranda}. \<forall>j\<in>{1..nbItemUnits}.
         fst (generateItemRepresentations P (m, s)) (cell i j) = embeddingsList s (i - 1) (j - 1))) \<and>
   PRESET default_params = 1 \<and>
   (\<forall>P' n'. analyze_command_line atoi atof args (P, n) = Inr (P', n') \<longrightarrow> PRESET P' = PRESET P) \<and>
   main_setup atoi atof None args P s = Inl Error_opening_file"
proof (intro conjI allI impI ballI)
  fix i j assume "PRESET P = 0" "i \<in> {1..maxMemoranda}" "j \<in> {1..nbItemUnits}"
  then show "fst (generateItemRepresentations P (m, s)) (cell i j) =
           uniform01 (rand_seq s (rand_calls s + (i - 1) * nbItemUnits + (j - 1)))"
    by (simp add: generateItemRepresentations_memoranda)
next
  fix r assume "r \<le> RAND_MAX"
  then show "0 \<le> uniform01 r" "uniform01 r < 1"
    using uniform01_range by simp_all
next
  fix i j assume "PRESET P \<noteq> 0" "i \<in> {1..maxMemoranda}" "j \<in> {1..nbItemUnits}"
  then show "fst (generateItemRepresentations P (m, s)) (cell i j) = embeddingsList s (i - 1) (j - 1)"
    by (simp add: generateItemRepresentations_memoranda)
next
  show "PRESET default_params = 1" by (simp add: default_params_def)
next
  fix P' n' assume "analyze_command_line atoi atof args (P, n) = Inr (P', n')"
  then show "PRESET P' = PRESET P"
    using analyze_command_line_PRESET by fastforce
next
  show "main_setup atoi atof None args P s = Inl Error_opening_file"
    by (simp add: main_setup_def)
qed

theorem item_vectors_random_or_preset_file_required_witness:
  "fst (generateItemRepresentations (default_params\<lparr>PRESET := 0\<rparr>) (\<lambda>a. 0, blank_state)) (cell 1 1)
     = 1 / 2147483648 \<and>
   fst (generateItemRepresentations default_params (\<lambda>a. 0, blank_state)) (cell 1 1) = 0"
proof -
  have 1: "(1::nat) \<in> {1..maxMemoranda}" "(1::nat) \<in> {1..nbItemUnits}"
    by (simp_all add: maxMemoranda_def nbItemUnits_def)
  have "fst (generateItemRepresentations (default_params\<lparr>PRESET := 0\<rparr>) (\<lambda>a. 0, blank_state)) (cell 1 1)
      = uniform01 (rand_seq blank_state (rand_calls blank_state + (1 - 1) * nbItemUnits + (1 - 1)))"
    using item_vectors_random_or_preset_file_required
      [of "default_params\<lparr>PRESET := 0\<rparr>" "\<lambda>a. 0" blank_state "\<lambda>_. 0" "\<lambda>_. 0" "[]" 500] 1
    by simp
  moreover have "fst (generateItemRepresentations default_params (\<lambda>a. 0, blank_state)) (cell 1 1)
      = embeddingsList blank_state (1 - 1) (1 - 1)"
    using item_vectors_random_or_preset_file_required
      [of default_params "\<lambda>a. 0" blank_state "\<lambda>_. 0" "\<lambda>_. 0" "[]" 500] 1
    by (simp add: default_params_def)
  ultimately show ?thesis
    by (simp add: blank_state_def uniform01_def RAND_MAX_def)
qed

theorem embedding_source_counterexample:
  "main_setup (\<lambda>_. 0) (\<lambda>_. 0) None [] (default_params\<lparr>PRESET := 0\<rparr>) blank_state
     = Inl Error_opening_file"
  by (simp add: main_setup_def)

section \<open>A whole trial\<close>

lemma same_globals_refl [simp]: "same_globals s s"
  by (simp add: same_globals_def)

lemma same_globals_trans: "same_globals s s' \<Longrightarrow> same_globals s' s'' \<Longrightarrow> same_globals s s''"
  by (simp add: same_globals_def)

lemma same_globals_regular: "same_globals s s' \<Longrightarrow> regular_state s \<Longrightarrow> regular_state s'"
  by (simp add: same_globals_def regular_state_def)

lemma rand_same: "same_globals s (snd (rand s))"
  by (simp add: rand_def same_globals_def)

lemma randomNormal_same: "same_globals s (snd (randomNormal m sd s))"
  by (simp add: randomNormal_state same_globals_def)

lemma retrieve_same: "same_globals s (snd (retrieve P pos status best s))"
proof -
  obtain t n where "snd (retrieve P pos status best s) = s\<lparr>var_tr := t, rand_calls := n\<rparr>"
    using retrieve_frame by blast
  then show ?thesis by (simp add: same_globals_def)
qed

text \<open>The pattern functions change nothing of the state but the number of rand() calls.\<close>

lemma similar_value_calls: "\<exists>n. snd (similar_value ref std s) = s\<lparr>rand_calls := n\<rparr>"
  by (auto simp: similar_value_def rand_def randomNormal_state split_beta)

lemma createSimilarRandomPattern_calls:
  "\<exists>n. snd (createSimilarRandomPattern ref std mn mx (pt, s)) = s\<lparr>rand_calls := n\<rparr>"
proof -
  let ?step = "\<lambda>i acc. case acc of (pt, s) \<Rightarrow>
         (let (val, s') = similar_value (ref i) std s in (set_pattern i val pt, s'))"
  have "\<exists>n. snd (fold ?step xs (pt, s)) = s\<lparr>rand_calls := n\<rparr>" for xs
  proof (induction xs arbitrary: pt s)
    case Nil
    have "s = s\<lparr>rand_calls := rand_calls s\<rparr>" by simp
    then show ?case by (metis fold_simps(1) snd_conv)
  next
    case (Cons x xs)
    obtain val s' where sv: "similar_value (ref x) std s = (val, s')"
      by (cases "similar_value (ref x) std s")
    obtain n where n: "s' = s\<lparr>rand_calls := n\<rparr>"
      using similar_value_calls [of "ref x" std s] sv by auto
    have st: "fold ?step (x # xs) (pt, s) = fold ?step xs (set_pattern x val pt, s')"
      by (simp add: sv)
    obtain n' where "snd (fold ?step xs (set_pattern x val pt, s')) = s'\<lparr>rand_calls := n'\<rparr>"
      using Cons by blast
    then have "snd (fold ?step (x # xs) (pt, s)) = s\<lparr>rand_calls := n'\<rparr>"
      unfolding st n by simp
    then show ?case by blast
  qed
  then show ?thesis unfolding createSimilarRandomPattern_def by blast
qed

lemma shuffle_fold_calls:
  "\<exists>n. snd (fold (shuffle_step ps fu) cs (pt, s)) = s\<lparr>rand_calls := n\<rparr>"
proof (induction cs arbitrary: pt s)
  case Nil
  have "s = s\<lparr>rand_calls := rand_calls s\<rparr>" by simp
  then show ?case by (metis fold_simps(1) snd_conv)
next
  case (Cons c cs)
  have st: "fold (shuffle_step ps fu) (c # cs) (pt, s) =
      fold (shuffle_step ps fu) cs
        (swap_pattern (rand_seq s (rand_calls s) mod ps + fu) c pt, s\<lparr>rand_calls := rand_calls s + 1\<rparr>)"
    by (simp add: shuffle_step_def rand_def)
  obtain n' where "snd (fold (shuffle_step ps fu) cs
        (swap_pattern (rand_seq s (rand_calls s) mod ps + fu) c pt, s\<lparr>rand_calls := rand_calls s + 1\<rparr>))
      = s\<lparr>rand_calls := rand_calls s + 1\<rparr>\<lparr>rand_calls := n'\<rparr>"
    using Cons by blast
  then have "snd (fold (shuffle_step ps fu) (c # cs) (pt, s)) = s\<lparr>rand_calls := n'\<rparr>"
    unfolding st by simp
  then show ?case by blast
qed

lemma createOverlapingRandomPattern_calls:
  "\<exists>n. snd (createOverlapingRandomPattern P ref ps p (pt0, s0)) = s0\<lparr>rand_calls := n\<rparr>"
proof -
  define n where "n = nat \<lfloor>(1 - p) * real ps\<rfloor>"
  define pt1 where "pt1 = fold (\<lambda>i. set_pattern i (- 1)) [1..<ps + 1] pt0"
  define ipt2 where "ipt2 = fold (\<lambda>(c::nat) (acc :: nat \<times> pattern_mem). case acc of (i, pt) \<Rightarrow> (i + 1, set_pattern i (- 1) pt))
                     [1..<n + 1] (ps + 1, pt1)"
  define a3 where "a3 = createSimilarRandomPattern ref (param_itemDistractorNoise P)
                     (ps + 1 + n) (ps + 1 + n + ps div 4) (snd ipt2, s0)"
  define a4 where "a4 = fold (shuffle_step ps (ps + 1)) (rev [ps + 1 + 1..<ps + 1 + ps + 1]) a3"
  have res: "createOverlapingRandomPattern P ref ps p (pt0, s0) = a4"
    unfolding a4_def a3_def ipt2_def pt1_def n_def
    by (rule createOverlapingRandomPattern_stages(1))
  obtain n3 where 3: "snd a3 = s0\<lparr>rand_calls := n3\<rparr>"
    unfolding a3_def using createSimilarRandomPattern_calls by blast
  obtain n4 where "snd (fold (shuffle_step ps (ps + 1)) (rev [ps + 1 + 1..<ps + 1 + ps + 1]) (fst a3, snd a3))
      = (snd a3)\<lparr>rand_calls := n4\<rparr>"
    using shuffle_fold_calls by blast
  then have "snd a4 = (snd a3)\<lparr>rand_calls := n4\<rparr>"
    unfolding a4_def prod.collapse .
  then have "snd a4 = s0\<lparr>rand_calls := n4\<rparr>"
    unfolding 3 by simp
  then show ?thesis unfolding res by blast
qed

lemma new_distractor_pattern_same: "same_globals s (new_distractor_pattern P retrieved s)"
proof -
  obtain n where "snd (createOverlapingRandomPattern P (row (itemVectorsInWM s) retrieved) nbItemUnits
      (param_itemDistractorOverlap P)
      ((\<lambda>i. itemVectorsInLTM s (cell (maxMemoranda + distractorNumber s) 0 + i), []), s))
      = s\<lparr>rand_calls := n\<rparr>"
    using createOverlapingRandomPattern_calls by blast
  then show ?thesis
    by (simp add: new_distractor_pattern_def Let_def split_beta same_globals_def)
qed

lemma encode_distractor_same:
  assumes "param_sameDist P \<noteq> 1"
  shows "same_globals s (encode_distractor P position s)"
proof -
  define r where "r = fst (retrieve P position 1 (stack_junk s) s)"
  define s1 where "s1 = snd (retrieve P position 1 (stack_junk s) s)"
  define s2 where "s2 = new_distractor_pattern P (retrievedItem r) s1"
  have 1: "same_globals s s1" unfolding s1_def by (rule retrieve_same)
  have 2: "same_globals s1 s2" unfolding s2_def by (rule new_distractor_pattern_same)
  have "same_globals s2 (encode_distractor P position s)"
    using assms
    by (simp add: encode_distractor_def Let_def split_beta r_def [symmetric] s1_def [symmetric]
        s2_def [symmetric] same_globals_def)
  then show ?thesis using 1 2 same_globals_trans by blast
qed

lemma encode_duration_same:
  "same_globals s (snd (encode_duration P ie ci tleft sd dur dis r s))"
  by (simp add: encode_duration_def Let_def split_beta same_globals_def)

lemma encode_same:
  assumes "distractor = 0 \<or> param_sameDist P \<noteq> 1"
  shows "same_globals s (snd (encode P ie ci b pos tleft sd dur distractor s))"
proof -
  define s1 where "s1 = snd (randomNormal (param_R P) (param_s P) s)"
  define r0 where "r0 = fst (randomNormal (param_R P) (param_s P) s)"
  define r where "r = (if r0 < 1 / 10 then 1 / 10 else r0)"
  define d where "d = fst (encode_duration P ie ci tleft sd dur distractor r s1)"
  define s2 where "s2 = snd (encode_duration P ie ci tleft sd dur distractor r s1)"
  define s4 where "s4 = (if distractor = 0 \<and> dur = - 1
                then s2\<lparr>globalTime := globalTime s2 + d,
                        itemPositionMatrix :=
                        decay (nbPositionUnits s2) (itemPositionMatrix s2)
                          (exp (- param_D P * d)) (int ci)\<rparr>
                else s2\<lparr>globalTime := globalTime s2 + d\<rparr>)"
  define s5 where "s5 = (if distractor \<noteq> 0 then encode_distractor P pos s4 else s4)"
  have 1: "same_globals s s1" unfolding s1_def by (rule randomNormal_same)
  have 2: "same_globals s1 s2" unfolding s2_def by (rule encode_duration_same)
  have 4: "same_globals s2 s4" unfolding s4_def by (simp add: same_globals_def)
  have 5: "same_globals s4 s5"
    unfolding s5_def using assms by (auto intro: encode_distractor_same)
  have "same_globals s5 (snd (encode P ie ci b pos tleft sd dur distractor s))"
    unfolding encode_def Let_def split_beta
    unfolding r0_def [symmetric] s1_def [symmetric] r_def [symmetric] d_def [symmetric] s2_def [symmetric]
    by (simp add: s5_def s4_def same_globals_def)
  then show ?thesis using 1 2 4 5 same_globals_trans by blast
qed

lemma refresh_item_same:
  "same_globals s (snd (snd (snd (refresh_item P lp t (cp, d, b, s)))))"
proof -
  define s1 where "s1 = snd (retrieve P cp 1 b s)"
  have 1: "same_globals s s1" unfolding s1_def by (rule retrieve_same)
  have "same_globals s1 (snd (snd (snd (refresh_item P lp t (cp, d, b, s)))))"
    unfolding refresh_item_def prod.case Let_def split_beta s1_def
    by (simp add: encode_same)
  then show ?thesis using 1 same_globals_trans by blast
qed

lemma refresh_window_same:
  "same_globals (snd (snd (snd acc))) (snd (snd (snd (refresh_window P lp t n acc))))"
proof (induction n arbitrary: acc)
  case 0
  then show ?case by simp
next
  case (Suc n)
  obtain cp d b s where acc: "acc = (cp, d, b, s)" by (cases acc) auto
  have "same_globals s (snd (snd (snd (refresh_item P lp t (cp, d, b, s)))))"
    by (rule refresh_item_same)
  then show ?case
    using Suc [of "refresh_item P lp t acc"] same_globals_trans unfolding acc by auto
qed

lemma refresh_loop_same:
  assumes "refresh_loop P lp v = Some y"
  shows "same_globals (snd (snd (snd v))) y"
proof -
  let ?Q = "\<lambda>(x :: (params \<times> nat) \<times> real \<times> nat \<times> nat \<times> state) (y :: state).
      same_globals (snd (snd (snd (snd x)))) y"
  have "?Q ((P, lp), v) y"
  proof (rule refresh_loop.raw_induct [where Pa = ?Q, OF _ assms])
    fix f :: "params \<Rightarrow> nat \<Rightarrow> real \<times> nat \<times> nat \<times> state \<Rightarrow> state option"
      and P lp v y
    assume IH: "\<And>P lp v y. f P lp v = Some y \<Longrightarrow> ?Q ((P, lp), v) y"
      and body: "(case v of (timeAvailable, currentPosition, best, s) \<Rightarrow>
        if 0 < timeAvailable
        then case refresh_window P lp timeAvailable
                   (nat (min_c (param_attentionalFocusSize P) (int lp)))
                   (currentPosition, - 1, best, s) of
             (cpi, reencodingDuration, best', s') \<Rightarrow>
               f P lp
                (if timeAvailable - reencodingDuration < 0 then 0
                 else timeAvailable - reencodingDuration,
                 cpi, best', s')
        else Some s) = Some y"
    obtain t cp b s where v: "v = (t, cp, b, s)" by (cases v) auto
    show "?Q ((P, lp), v) y"
    proof (cases "0 < t")
      case False
      then show ?thesis using body unfolding v by simp
    next
      case True
      define w where "w = refresh_window P lp t (nat (min_c (param_attentionalFocusSize P) (int lp)))
          (cp, - 1, b, s)"
      have "f P lp (if t - fst (snd w) < 0 then 0 else t - fst (snd w), fst w, fst (snd (snd w)),
          snd (snd (snd w))) = Some y"
        using body True unfolding v prod.case w_def [symmetric] by (simp add: split_beta)
      from IH [OF this] have "same_globals (snd (snd (snd w))) y" by simp
      moreover have "same_globals s (snd (snd (snd w)))"
        unfolding w_def using refresh_window_same [of "(cp, - 1, b, s)"] by simp
      ultimately show ?thesis unfolding v using same_globals_trans by auto
    qed
  qed
  then show ?thesis by simp
qed

lemma refresh_returns:
  assumes "regular_state s" "1 \<le> lp" "1 \<le> param_attentionalFocusSize P"
  shows "\<exists>s'. refresh P t lp s = Some s' \<and> same_globals s s'"
proof -
  have tau: "0 < var_tauR s" "var_tauR s < 1"
    and rnd: "\<forall>k. 1 \<le> rand_seq s k \<and> rand_seq s k \<le> RAND_MAX"
    using assms(1) by (simp_all add: regular_state_def)
  define c where "c = - ln (1 - var_tauR s)"
  define B where "B = max (1 / 10) (param_R P + \<bar>param_s P\<bar> * sqrt (2 * ln (real RAND_MAX + 1)))"
  have delta: "0 < c / B"
    using refresh_item_first_bounds(3) [OF tau rnd, where P = P and t = 1]
    unfolding c_def B_def by simp
  define dl where "dl = c / B"
  have dl: "0 < dl" using delta unfolding dl_def .
  define n where "n = nat \<lceil>t / dl\<rceil>"
  have "t / dl \<le> real n"
    unfolding n_def by linarith
  then have "t / dl * dl \<le> real n * dl"
    using dl by (intro mult_right_mono) simp_all
  moreover have "t / dl * dl = t"
    using dl by simp
  ultimately have "t \<le> real n * (c / B)"
    unfolding dl_def by simp
  then obtain s' where s': "refresh_loop P lp (t, 1, stack_junk s, s) = Some s'"
    unfolding c_def B_def
    using refresh_loop_terminates [OF assms(2,3) tau rnd] by blast
  then have "same_globals s s'"
    using refresh_loop_same by fastforce
  then show ?thesis using s' unfolding refresh_def by blast
qed

lemma processing_same:
  assumes "param_sameDist P \<noteq> 1"
  shows "same_globals s (snd (processing P lp s))"
proof -
  define s1 where "s1 = s\<lparr>var_Rop := - ln (1 - param_tauOp P) / param_Ta P\<rparr>"
  define s2 where "s2 = snd (randomNormal (var_Rop s1) (param_s P) s1)"
  define rop where "rop = fst (randomNormal (var_Rop s1) (param_s P) s1)"
  define s5 where "s5 = (let s3 = s2\<lparr>var_rop := (if rop < 1 / 10 then 1 / 10 else rop)\<rparr>;
          s4 = s3\<lparr>var_ta := - ln (1 - param_tauOp P) / var_rop s3\<rparr>
       in (if var_ta s4 > param_freeTime P \<and> param_freeTimeIncludesOpDuration P = 1
                then s4\<lparr>var_ta := param_freeTime P\<rparr> else s4))"
  define s6 where "s6 = snd (encode P 1 (maxMemoranda + distractorNumber s5) (- 1) lp 9999 1 (var_ta s5) 1 s5)"
  have 1: "same_globals s s1" unfolding s1_def by (simp add: same_globals_def)
  have 2: "same_globals s1 s2" unfolding s2_def by (rule randomNormal_same)
  have 5: "same_globals s2 s5" unfolding s5_def by (simp add: same_globals_def Let_def)
  have 6: "same_globals s5 s6" unfolding s6_def using assms by (intro encode_same) simp
  have "same_globals s6 (snd (processing P lp s))"
    unfolding processing_def Let_def split_beta
    unfolding s1_def [symmetric] s2_def [symmetric] rop_def [symmetric]
    unfolding s5_def [unfolded Let_def, symmetric] s6_def [symmetric]
    by (simp add: same_globals_def)
  then show ?thesis using 1 2 5 6 same_globals_trans by blast
qed

lemma recall_fold_same:
  "same_globals (snd (snd acc)) (snd (snd (fold (recall_position P) xs acc)))"
proof (induction xs arbitrary: acc)
  case Nil
  then show ?case by simp
next
  case (Cons x xs)
  obtain b r s where acc: "acc = (b, r, s)" by (cases acc) auto
  have "same_globals s (snd (retrieve P x 0 b s))" by (rule retrieve_same)
  then have "same_globals s (snd (snd (recall_position P x (b, r, s))))"
    unfolding recall_position_unfold by (simp add: same_globals_def)
  then show ?case
    using Cons [of "recall_position P x acc"] same_globals_trans unfolding acc by auto
qed

lemma recall_same: "same_globals s (snd (recall P lp rec s))"
  using recall_fold_same [of "(stack_junk s, rec, s)" P "[1..<lp + 1]"]
  unfolding recall_def by (simp add: split_beta)

lemma regular_state_update [simp]:
  "regular_state (s\<lparr>distractorNumber := n\<rparr>) = regular_state s"
  "regular_state (s\<lparr>lastItem := i\<rparr>) = regular_state s"
  by (simp_all add: regular_state_def)

lemma encode_initial_duration:
  assumes "0 \<le> logTauE s" "0 \<le> presentationTime P"
  shows "0 \<le> fst (encode P 1 ci b pos (presentationTime P) sd dur 0 s)"
proof -
  define r0 where "r0 = fst (randomNormal (param_R P) (param_s P) s)"
  define r where "r = (if r0 < 1 / 10 then 1 / 10 else r0)"
  have r: "0 < r" unfolding r_def by simp
  have l: "logTauE (snd (randomNormal (param_R P) (param_s P) s)) = logTauE s"
    by (simp add: randomNormal_state)
  have "0 \<le> logTauE s / r" using assms(1) r by simp
  then show ?thesis
    using assms(2)
    unfolding encode_def encode_duration_def Let_def split_beta r0_def [symmetric]
      r_def [symmetric]
    by (simp add: l)
qed

lemma trial_loop_completes:
  assumes P: "param_sameDist P = 0" "1 \<le> param_attentionalFocusSize P" "0 \<le> presentationTime P"
  shows "distractors_before_recall syms = Some n \<Longrightarrow> regular_state s \<Longrightarrow>
    1 \<le> lp \<or> (\<exists>c cs. syms = c # cs \<and> 65 \<le> c \<and> c \<le> 90) \<Longrightarrow>
    distractorNumber s + n \<le> maxDistractors + 1 \<Longrightarrow>
    \<exists>recalled' lp' s'. trial_loop P recalled syms (lp, s) = Some (Inr (recalled', lp', s')) \<and>
       distractorNumber s' = distractorNumber s + n"
proof (induction syms arbitrary: n s lp)
  case Nil
  then show ?case by simp
next
  case (Cons c cs)
  consider (memo) "65 \<le> c \<and> c \<le> 90" | (dist) "\<not> (65 \<le> c \<and> c \<le> 90)" "48 \<le> c \<and> c \<le> 64"
    | (rec) "c = 35" | (other) "\<not> (65 \<le> c \<and> c \<le> 90)" "\<not> (48 \<le> c \<and> c \<le> 64)" "c \<noteq> 35"
    by blast
  then show ?case
  proof cases
    case memo
    define s1 where "s1 = s\<lparr>lastItem := c - 65 + 1\<rparr>"
    define e where "e = encode P 1 (c - 65 + 1) (- 1) (lp + 1) (presentationTime P) 1 (- 1) 0 s1"
    have r1: "regular_state s1" "distractorNumber s1 = distractorNumber s"
      using Cons.prems(2) unfolding s1_def by simp_all
    have g2: "same_globals s1 (snd e)" unfolding e_def by (intro encode_same) simp
    then have r2: "regular_state (snd e)" using r1 same_globals_regular by blast
    have d: "0 \<le> fst e"
      unfolding e_def using r1(1) P(3) by (intro encode_initial_duration) (simp_all add: regular_state_def)
    obtain s3 where s3: "refresh P (presentationTime P - fst e) (lp + 1) (snd e) = Some s3"
      "same_globals (snd e) s3"
      using refresh_returns [OF r2 _ P(2), of "lp + 1"] by auto
    have r3: "regular_state s3" using s3(2) r2 same_globals_regular by blast
    have n3: "distractorNumber s3 = distractorNumber s"
      using s3(2) g2 r1(2) by (simp add: same_globals_def)
    have dn: "distractors_before_recall cs = Some n" using Cons.prems(1) memo by simp
    have step: "trial_loop P recalled (c # cs) (lp, s) = trial_loop P recalled cs (lp + 1, s3)"
      using memo d s3(1) unfolding e_def s1_def
      by (simp add: Let_def split_beta)
    show ?thesis
      unfolding step using Cons.IH [OF dn r3, of "lp + 1"] Cons.prems(4) n3 by simp
  next
    case dist
    have lp: "1 \<le> lp" using Cons.prems(3) dist(1) by auto
    obtain m where m: "distractors_before_recall cs = Some m" "n = Suc m"
      using Cons.prems(1) dist by auto
    have le: "distractorNumber s \<le> maxDistractors" using Cons.prems(4) m(2) by simp
    define s1 where "s1 = s\<lparr>distractorNumber := distractorNumber s + 1\<rparr>"
    have b: "begin_distractor P s = Inr s1"
      using le P(1) unfolding begin_distractor_def s1_def by simp
    have r1: "regular_state s1" "distractorNumber s1 = distractorNumber s + 1"
      using Cons.prems(2) unfolding s1_def by simp_all
    define p where "p = processing P lp s1"
    have g2: "same_globals s1 (snd p)" unfolding p_def using P(1) by (intro processing_same) simp
    then have r2: "regular_state (snd p)" using r1 same_globals_regular by blast
    define t where "t = (if param_freeTimeIncludesOpDuration P \<noteq> 0
                                then param_freeTime P - fst p else param_freeTime P)"
    obtain s3 where s3: "refresh P t lp (snd p) = Some s3" "same_globals (snd p) s3"
      using refresh_returns [OF r2 lp P(2)] by blast
    have r3: "regular_state s3" using s3(2) r2 same_globals_regular by blast
    have n3: "distractorNumber s3 = distractorNumber s + 1"
      using s3(2) g2 r1(2) by (simp add: same_globals_def)
    have step: "trial_loop P recalled (c # cs) (lp, s) = trial_loop P recalled cs (lp, s3)"
      using dist s3(1) b unfolding t_def p_def
      by (simp add: Let_def split_beta)
    show ?thesis
      unfolding step using Cons.IH [OF m(1) r3, of lp] Cons.prems(4) n3 m(2) lp by simp
  next
    case rec
    have n: "n = 0" using Cons.prems(1) rec by simp
    have "same_globals s (snd (recall P lp recalled s))" by (rule recall_same)
    then have "distractorNumber (snd (recall P lp recalled s)) = distractorNumber s"
      by (simp add: same_globals_def)
    then show ?thesis unfolding n rec by (simp add: split_beta)
  next
    case other
    then show ?thesis using Cons.prems(1) by (auto split: if_splits)
  qed
qed

lemma stimuli_13:
  "distractors_before_recall (stimuli (default_params\<lparr>nbop := 13\<rparr>)) = Some 91"
  by code_simp

lemma begin_distractor_at_capacity:
  assumes "param_sameDist P = 0" "distractorNumber s = maxDistractors"
  shows "begin_distractor P s = Inr (s\<lparr>distractorNumber := maxDistractors + 1\<rparr>)"
  using assms by (simp add: begin_distractor_def)

lemma main_setup_nbop_13:
  assumes "atoi ''13'' = 13"
  shows "main_setup atoi atof (Some table) [''nbop'', ''13''] default_params s =
    Inr (default_params\<lparr>nbop := 13\<rparr>, 500,
         main_model_variables (default_params\<lparr>nbop := 13\<rparr>) (s\<lparr>embeddingsList := table\<rparr>))"
  using assms
  by (simp add: main_setup_def option_value_def default_params_def)

lemma regular_main_model_variables:
  "regular_state (main_model_variables (default_params\<lparr>nbop := 13\<rparr>) blank_state)"
proof -
  have "exp (- (48 / 100 :: real)) < 1" by simp
  moreover have "0 \<le> - ln (1 - 95 / 100 :: real)" by simp
  ultimately show ?thesis
    by (simp add: regular_state_def main_model_variables_def default_params_def blank_state_def
        RAND_MAX_def)
qed

text \<open>C7 (defect of the code). With 13 operations after each of the 7 memoranda, a trial
  that starts with no distractor and with regular model variables runs to the recall without
  an abort, and it has then created 91 distractors, one more than \<open>maxDistractors\<close>: the test
  before the increment is \<^verbatim>\<open>distractorNumber>maxDistractors\<close>, which the count 90 passes.
  The last distractor has the item index 101, beyond \<open>maxItem\<close>.\<close>

theorem trial_creates_distractor_beyond_capacity:
  assumes "regular_state s" "distractorNumber s = 0"
  shows "\<exists>recalled' lp' s'.
     trial_loop (default_params\<lparr>nbop := 13\<rparr>) recalled (stimuli (default_params\<lparr>nbop := 13\<rparr>)) (0, s) =
       Some (Inr (recalled', lp', s')) \<and>
     distractorNumber s' = maxDistractors + 1 \<and>
     maxItem < maxMemoranda + distractorNumber s'"
proof -
  let ?P = "default_params\<lparr>nbop := 13\<rparr>"
  have P: "param_sameDist ?P = 0" "1 \<le> param_attentionalFocusSize ?P" "0 \<le> presentationTime ?P"
    by (simp_all add: default_params_def)
  have first: "\<exists>c cs. stimuli ?P = c # cs \<and> 65 \<le> c \<and> c \<le> 90"
    by (simp add: stimuli_def default_params_def upt_conv_Cons)
  have "distractorNumber s + 91 \<le> maxDistractors + 1"
    using assms(2) by (simp add: maxDistractors_def)
  from trial_loop_completes [OF P stimuli_13 assms(1) disjI2 this, OF first, of recalled]
  obtain recalled' lp' s' where
    "trial_loop ?P recalled (stimuli ?P) (0, s) = Some (Inr (recalled', lp', s'))"
    "distractorNumber s' = distractorNumber s + 91"
    by blast
  then show ?thesis
    using assms(2) by (simp add: maxDistractors_def maxItem_def maxMemoranda_def)
qed

theorem trial_creates_distractor_beyond_capacity_witness:
  "regular_state (main_model_variables (default_params\<lparr>nbop := 13\<rparr>) blank_state) \<and>
   distractorNumber (main_model_variables (default_params\<lparr>nbop := 13\<rparr>) blank_state) = 0 \<and>
   (\<exists>recalled' lp' s'.
     trial_loop (default_params\<lparr>nbop := 13\<rparr>) [] (stimuli (default_params\<lparr>nbop := 13\<rparr>))
       (0, main_model_variables (default_params\<lparr>nbop := 13\<rparr>) blank_state) =
       Some (Inr (recalled', lp', s')) \<and>
     distractorNumber s' = 91 \<and> maxItem = 100 \<and> maxMemoranda + distractorNumber s' = 101)"
proof -
  have d: "distractorNumber (main_model_variables (default_params\<lparr>nbop := 13\<rparr>) blank_state) = 0"
    by (simp add: main_model_variables_def blank_state_def)
  show ?thesis
    using trial_creates_distractor_beyond_capacity [OF regular_main_model_variables d, of "[]"]
      regular_main_model_variables d
    by (auto simp add: maxDistractors_def maxItem_def maxMemoranda_def)
qed

end
